theory Spec2Isabelle
  imports Complex_Main
begin

section \<open>Text, slices and character classes\<close>

text \<open>
  The shader text is a \<^typ>\<open>string\<close>: a list of characters with code points below 256.
  Python's \<^verbatim>\<open>s[a:b]\<close> with non-negative bounds never raises: it clamps to the text, and
  is empty when \<^verbatim>\<open>b <= a\<close>.
\<close>

definition slice :: "string \<Rightarrow> nat \<Rightarrow> nat \<Rightarrow> string" where
  "slice s a b = take (b - a) (drop a s)"

text \<open>
  The classes \<^verbatim>\<open>\s\<close>, \<^verbatim>\<open>\d\<close> and \<^verbatim>\<open>\w\<close> of Python's \<^verbatim>\<open>re\<close> on \<^verbatim>\<open>str\<close> patterns,
  restricted to code points below 256.
\<close>

definition is_space :: "char \<Rightarrow> bool" where
  "is_space c = (let n = (of_char c :: nat) in
     (9 \<le> n \<and> n \<le> 13) \<or> (28 \<le> n \<and> n \<le> 32) \<or> n = 133 \<or> n = 160)"

definition is_digit :: "char \<Rightarrow> bool" where
  "is_digit c = (let n = (of_char c :: nat) in 48 \<le> n \<and> n \<le> 57)"

definition is_word :: "char \<Rightarrow> bool" where
  "is_word c = (let n = (of_char c :: nat) in
     (48 \<le> n \<and> n \<le> 57) \<or> (65 \<le> n \<and> n \<le> 90) \<or> n = 95 \<or> (97 \<le> n \<and> n \<le> 122)
     \<or> n = 170 \<or> n = 178 \<or> n = 179 \<or> n = 181 \<or> n = 185 \<or> n = 186
     \<or> (188 \<le> n \<and> n \<le> 190) \<or> (192 \<le> n \<and> n \<le> 214) \<or> (216 \<le> n \<and> n \<le> 246)
     \<or> 248 \<le> n)"

definition newline :: char where
  "newline = CHR 0x0A"

section \<open>The pattern matcher\<close>

text \<open>
  The source drives every stage with \<^verbatim>\<open>re.finditer\<close> or \<^verbatim>\<open>re.sub\<close>. The patterns
  use character classes, concatenation, alternation, greedy repetition, capture groups, the
  anchors \<^verbatim>\<open>^\<close> and \<^verbatim>\<open>$\<close> and the word boundary \<^verbatim>\<open>\b\<close>.
\<close>

datatype re =
    Cls "char \<Rightarrow> bool"
  | Eps
  | Cat re re
  | Alt re re
  | Star re
  | Grp nat re
  | Bol
  | Eol
  | Wb

type_synonym caps = "nat \<rightharpoonup> nat \<times> nat"

definition word_at :: "string \<Rightarrow> nat \<Rightarrow> bool" where
  "word_at s i = (i < length s \<and> is_word (s ! i))"

text \<open>
  \<open>ms r s i c\<close> lists, in the order a backtracking matcher tries them, the end positions
  (with the groups captured) of the ways \<open>r\<close> matches \<open>s\<close> from position \<open>i\<close>. Its head is
  the match Python reports at \<open>i\<close>. A repetition is greedy: another round of the body comes
  before stopping. A round that consumes nothing ends the repetition.
\<close>

function ms :: "re \<Rightarrow> string \<Rightarrow> nat \<Rightarrow> caps \<Rightarrow> (nat \<times> caps) list" where
  "ms (Cls P) s i c = (if i < length s \<and> P (s ! i) then [(Suc i, c)] else [])"
| "ms Eps s i c = [(i, c)]"
| "ms (Cat a b) s i c = concat (map (\<lambda>(j, c'). ms b s j c') (ms a s i c))"
| "ms (Alt a b) s i c = ms a s i c @ ms b s i c"
| "ms (Star a) s i c =
     concat (map (\<lambda>(j, c'). if i < j \<and> j \<le> length s then ms (Star a) s j c' else [])
                 (ms a s i c)) @ [(i, c)]"
| "ms (Grp n a) s i c = map (\<lambda>(j, c'). (j, c'(n \<mapsto> (i, j)))) (ms a s i c)"
| "ms Bol s i c = (if i = 0 then [(i, c)] else [])"
| "ms Eol s i c =
     (if i = length s \<or> (Suc i = length s \<and> s ! i = newline) then [(i, c)] else [])"
| "ms Wb s i c =
     (if (0 < i \<and> word_at s (i - 1)) \<noteq> word_at s i then [(i, c)] else [])"
  by pat_completeness auto
termination
  by (relation "measures [\<lambda>(r, s, i, c). size r, \<lambda>(r, s, i, c). length s - i]") auto

declare ms.simps(5) [simp del]

definition Rep1 :: "re \<Rightarrow> re" where
  "Rep1 a = Cat a (Star a)"

definition Opt :: "re \<Rightarrow> re" where
  "Opt a = Alt a Eps"

definition Lit :: "char \<Rightarrow> re" where
  "Lit x = Cls (\<lambda>c. c = x)"

definition NoneOf :: "char list \<Rightarrow> re" where
  "NoneOf xs = Cls (\<lambda>c. c \<notin> set xs)"

definition cat :: "re list \<Rightarrow> re" where
  "cat rs = foldr Cat rs Eps"

definition Str :: "string \<Rightarrow> re" where
  "Str xs = cat (map Lit xs)"

text \<open>
  A match object: \<^verbatim>\<open>match.start()\<close>, \<^verbatim>\<open>match.end()\<close> and the spans of the groups.
\<close>

record rmatch =
  mstart :: nat
  mend :: nat
  mgroups :: caps

text \<open>
  \<^verbatim>\<open>re.finditer\<close>: the leftmost match from the current position, then on from its end.
  Every pattern of the source consumes at least one character; after an empty match the
  scan moves on by one character.
\<close>

function finditer_from :: "re \<Rightarrow> string \<Rightarrow> nat \<Rightarrow> rmatch list" where
  "finditer_from r s i =
     (if length s < i then []
      else case ms r s i Map.empty of
             [] \<Rightarrow> finditer_from r s (Suc i)
           | (e, c) # _ \<Rightarrow>
               \<lparr>mstart = i, mend = e, mgroups = c\<rparr>
                 # finditer_from r s (if i < e then e else Suc i))"
  by pat_completeness auto
termination
  by (relation "measure (\<lambda>(r, s, i). Suc (length s) - i)") auto

declare finditer_from.simps [simp del]

definition finditer :: "re \<Rightarrow> string \<Rightarrow> rmatch list" where
  "finditer r s = finditer_from r s 0"

text \<open>\<^verbatim>\<open>match.group()\<close> and one component of \<^verbatim>\<open>match.groups()\<close>.\<close>

definition match_text :: "string \<Rightarrow> rmatch \<Rightarrow> string" where
  "match_text s m = slice s (mstart m) (mend m)"

definition match_group :: "string \<Rightarrow> rmatch \<Rightarrow> nat \<Rightarrow> string" where
  "match_group s m n = (case mgroups m n of Some (a, b) \<Rightarrow> slice s a b | None \<Rightarrow> ''None'')"

text \<open>\<^verbatim>\<open>re.sub\<close> with a replacement that has no back-references.\<close>

fun sub_loop :: "string \<Rightarrow> string \<Rightarrow> rmatch list \<Rightarrow> nat \<Rightarrow> string" where
  "sub_loop s repl [] pos = drop pos s"
| "sub_loop s repl (m # rest) pos =
     slice s pos (mstart m) @ repl @ sub_loop s repl rest (mend m)"

definition re_sub :: "re \<Rightarrow> string \<Rightarrow> string \<Rightarrow> string" where
  "re_sub r repl s = sub_loop s repl (finditer r s) 0"

section \<open>The patterns of the source\<close>

definition line_comment_pattern :: re where
  "line_comment_pattern = cat [Str ''//'', Star (NoneOf [newline])]"

definition block_comment_pattern :: re where
  "block_comment_pattern =
     cat [Str ''/*'', Star (NoneOf ''*''), Rep1 (Lit CHR ''*''),
          Star (cat [NoneOf ''/*'', Star (NoneOf ''*''), Rep1 (Lit CHR ''*'')]),
          Lit CHR ''/'']"

definition trim_pattern :: re where
  "trim_pattern = Alt (cat [Bol, Rep1 (Cls is_space)]) (cat [Rep1 (Cls is_space), Eol])"

definition spaces_pattern :: re where
  "spaces_pattern = Rep1 (Cls is_space)"

definition var_decl_pattern :: re where
  "var_decl_pattern =
     cat [Wb, Grp 1 (Rep1 (Cls is_word)), Rep1 (Cls is_space),
          Grp 2 (Rep1 (Cls is_word)), Star (Cls is_space), Opt (Lit CHR ''[''),
          Star (Cls is_space), Grp 3 (Star (Cls is_digit)), Star (Cls is_space),
          Opt (Lit CHR '']''), Star (Cls is_space), Lit CHR '';'']"

definition empty_lines_pattern :: re where
  "empty_lines_pattern = cat [Lit newline, Star (Cls is_space), Lit newline]"

definition function_pattern :: re where
  "function_pattern =
     cat [Wb, Grp 1 (Rep1 (Cls is_word)), Rep1 (Cls is_space),
          Grp 2 (Rep1 (Cls is_word)), Star (Cls is_space), Lit CHR ''('',
          Star (NoneOf '')''), Lit CHR '')'', Star (Cls is_space), Lit CHR ''{'']"

definition loop_pattern :: re where
  "loop_pattern =
     cat [Wb, Str ''for'', Star (Cls is_space), Lit CHR ''('',
          Star (NoneOf '')''), Lit CHR '')'', Star (Cls is_space), Lit CHR ''{'']"

definition uniform_pattern :: re where
  "uniform_pattern =
     cat [Wb, Str ''uniform'', Rep1 (Cls is_space),
          Grp 1 (Rep1 (Cls is_word)), Rep1 (Cls is_space),
          Grp 2 (Rep1 (Cls is_word)), Star (Cls is_space), Opt (Lit CHR ''[''),
          Star (Cls is_space), Grp 3 (Star (Cls is_digit)), Star (Cls is_space),
          Opt (Lit CHR '']''), Star (Cls is_space), Lit CHR '';'']"

definition texture_pattern :: re where
  "texture_pattern = cat [Wb, Str ''texture('', Star (NoneOf '')''), Lit CHR '')'']"

section \<open>The stages\<close>

subsection \<open>Comments and whitespace\<close>

definition remove_comments :: "string \<Rightarrow> string" where
  "remove_comments shader_code =
     re_sub block_comment_pattern [] (re_sub line_comment_pattern [] shader_code)"

definition remove_whitespace :: "string \<Rightarrow> string" where
  "remove_whitespace shader_code =
     re_sub spaces_pattern '' '' (re_sub trim_pattern [] shader_code)"

definition remove_empty_lines :: "string \<Rightarrow> string" where
  "remove_empty_lines shader_code = re_sub empty_lines_pattern [newline] shader_code"

subsection \<open>Redundant declarations\<close>

text \<open>\<^verbatim>\<open>defaultdict(list)\<close>: a missing key reads as the empty list.\<close>

definition dd_get :: "(string \<rightharpoonup> string list) \<Rightarrow> string \<Rightarrow> string list" where
  "dd_get d k = (case d k of None \<Rightarrow> [] | Some l \<Rightarrow> l)"

text \<open>
  The loop of \<^verbatim>\<open>remove_redundant_variables\<close>, with its variables
  \<^verbatim>\<open>variable_declarations\<close>, \<^verbatim>\<open>new_shader_code\<close> and \<^verbatim>\<open>start\<close>. The list read
  with \<^verbatim>\<open>[0]\<close> has just been appended to, so it is never empty.
\<close>

fun redundant_loop ::
  "string \<Rightarrow> rmatch list \<Rightarrow> (string \<rightharpoonup> string list) \<Rightarrow> string \<Rightarrow> nat \<Rightarrow> string \<times> nat" where
  "redundant_loop s [] d new start = (new, start)"
| "redundant_loop s (m # rest) d new start =
     (let var_type = match_group s m 1;
          var_name = match_group s m 2;
          key = var_type @ '' '' @ var_name;
          entry = dd_get d key @ [match_text s m];
          d' = d(key \<mapsto> entry);
          new' = new @ slice s start (mstart m);
          new'' = new' @ hd entry
      in redundant_loop s rest d' new'' (mend m))"

definition remove_redundant_variables :: "string \<Rightarrow> string" where
  "remove_redundant_variables shader_code =
     (case redundant_loop shader_code (finditer var_decl_pattern shader_code) Map.empty [] 0 of
        (new, start) \<Rightarrow> new @ drop start shader_code)"

subsection \<open>Combining declarations\<close>

record combine_state =
  new_shader_code :: string
  var_declarations :: "string list"
  current_var_type :: string
  current_var_names :: string
  current_var_sizes :: string
  cstart :: nat

definition flush_decl :: "combine_state \<Rightarrow> string" where
  "flush_decl st =
     current_var_type st @ '' '' @ current_var_names st
       @ (if current_var_sizes st \<noteq> [] then current_var_sizes st else []) @ '';''"

definition combine_step :: "string \<Rightarrow> combine_state \<Rightarrow> rmatch \<Rightarrow> combine_state" where
  "combine_step s st m =
     (let var_type = match_group s m 1;
          var_name = match_group s m 2;
          var_size = match_group s m 3;
          st1 =
            (if current_var_type st = [] then
               st\<lparr>current_var_type := var_type, current_var_names := var_name,
                  current_var_sizes := var_size\<rparr>
             else if current_var_type st = var_type then
               st\<lparr>current_var_names := current_var_names st @ '', '' @ var_name,
                  current_var_sizes :=
                    (if var_size \<noteq> [] then current_var_sizes st @ '', '' @ var_size
                     else current_var_sizes st)\<rparr>
             else
               st\<lparr>var_declarations := var_declarations st @ [flush_decl st],
                  current_var_type := var_type, current_var_names := var_name,
                  current_var_sizes := var_size\<rparr>)
      in st1\<lparr>new_shader_code := new_shader_code st1 @ slice s (cstart st1) (mstart m),
             cstart := mend m\<rparr>)"

fun join :: "string \<Rightarrow> string list \<Rightarrow> string" where
  "join sep [] = []"
| "join sep [x] = x"
| "join sep (x # y # ys) = x @ sep @ join sep (y # ys)"

definition combine_variable_declarations :: "string \<Rightarrow> string" where
  "combine_variable_declarations shader_code =
     (let st = foldl (combine_step shader_code)
                 \<lparr>new_shader_code = [], var_declarations = [], current_var_type = [],
                  current_var_names = [], current_var_sizes = [], cstart = 0\<rparr>
                 (finditer var_decl_pattern shader_code);
          decls = (if current_var_type st \<noteq> [] then var_declarations st @ [flush_decl st]
                   else var_declarations st)
      in new_shader_code st @ join [newline] decls @ [newline] @ drop (cstart st) shader_code)"

subsection \<open>Function and loop bodies\<close>

text \<open>
  The \<^verbatim>\<open>while\<close> loop of \<^verbatim>\<open>find_function_body\<close> and of \<^verbatim>\<open>find_loop_body\<close> (the two
  are the same text): it returns the final \<^verbatim>\<open>end_index\<close>.
\<close>

function brace_loop :: "string \<Rightarrow> int \<Rightarrow> nat \<Rightarrow> nat" where
  "brace_loop s open_braces end_index =
     (if 0 < open_braces \<and> end_index < length s then
        brace_loop s
          (if s ! end_index = CHR ''{'' then open_braces + 1
           else if s ! end_index = CHR ''}'' then open_braces - 1
           else open_braces)
          (end_index + 1)
      else end_index)"
  by pat_completeness auto
termination
  by (relation "measure (\<lambda>(s, open_braces, end_index). length s - end_index)") auto

declare brace_loop.simps [simp del]

definition find_function_body :: "string \<Rightarrow> nat \<Rightarrow> string" where
  "find_function_body shader_code start_index =
     slice shader_code start_index (brace_loop shader_code 1 start_index)"

definition find_loop_body :: "string \<Rightarrow> nat \<Rightarrow> string" where
  "find_loop_body shader_code start_index =
     slice shader_code start_index (brace_loop shader_code 1 start_index)"

subsection \<open>Inlining and unrolling\<close>

fun inline_loop :: "string \<Rightarrow> rmatch list \<Rightarrow> string \<Rightarrow> nat \<Rightarrow> string \<times> nat" where
  "inline_loop s [] new start = (new, start)"
| "inline_loop s (m # rest) new start =
     (let function_body = find_function_body s (mend m)
      in if length function_body < 50 then
           inline_loop s rest (new @ slice s start (mstart m) @ function_body)
             (mend m + length function_body + 1)
         else
           inline_loop s rest (new @ slice s start (mend m + 1)) (mend m + 1))"

definition inline_functions :: "string \<Rightarrow> string" where
  "inline_functions shader_code =
     (case inline_loop shader_code (finditer function_pattern shader_code) [] 0 of
        (new, start) \<Rightarrow> new @ drop start shader_code)"

text \<open>
  \<^verbatim>\<open>str.replace\<close>: every occurrence of \<open>old\<close>, left to right, without overlap. The
  source calls it with a non-empty \<open>old\<close> only.
\<close>

function str_replace :: "string \<Rightarrow> string \<Rightarrow> string \<Rightarrow> string" where
  "str_replace [] old new = []"
| "str_replace (c # cs) old new =
     (if old \<noteq> [] \<and> take (length old) (c # cs) = old
      then new @ str_replace (drop (length old) (c # cs)) old new
      else c # str_replace cs old new)"
  by pat_completeness auto
termination
  by (relation "measure (\<lambda>(s, old, new). length s)") auto

definition unrolled_block :: string where
  "unrolled_block =
     [newline] @ ''        {'' @ [newline] @ ''            // Unrolled loop body''
       @ [newline] @ ''        }'' @ [newline] @ ''    ''"

definition unroll_loop :: "string \<Rightarrow> string" where
  "unroll_loop loop_body = str_replace loop_body ''for (int i = 0; i < 10; i++)'' unrolled_block"

fun unroll_loops_loop :: "string \<Rightarrow> rmatch list \<Rightarrow> string \<Rightarrow> nat \<Rightarrow> string \<times> nat" where
  "unroll_loops_loop s [] new start = (new, start)"
| "unroll_loops_loop s (m # rest) new start =
     (let loop_body = find_loop_body s (mend m)
      in if length loop_body < 50 then
           unroll_loops_loop s rest (new @ slice s start (mstart m) @ unroll_loop loop_body)
             (mend m + length loop_body + 1)
         else
           unroll_loops_loop s rest (new @ slice s start (mend m + 1)) (mend m + 1))"

definition unroll_loops :: "string \<Rightarrow> string" where
  "unroll_loops shader_code =
     (case unroll_loops_loop shader_code (finditer loop_pattern shader_code) [] 0 of
        (new, start) \<Rightarrow> new @ drop start shader_code)"

subsection \<open>Uniforms\<close>

definition get_uniform_value :: "string \<Rightarrow> string option" where
  "get_uniform_value uniform_name =
     map_of [(''u_time'', ''0.0''), (''u_resolution'', ''vec2(1024.0, 768.0)'')] uniform_name"

fun uniform_loop :: "string \<Rightarrow> rmatch list \<Rightarrow> string \<Rightarrow> nat \<Rightarrow> string \<times> nat" where
  "uniform_loop s [] new start = (new, start)"
| "uniform_loop s (m # rest) new start =
     (let uniform_type = match_group s m 1;
          uniform_name = match_group s m 2
      in case get_uniform_value uniform_name of
           Some uniform_value \<Rightarrow>
             uniform_loop s rest
               (new @ slice s start (mstart m)
                  @ uniform_type @ '' '' @ uniform_name @ '' = '' @ uniform_value @ '';'')
               (mend m)
         | None \<Rightarrow> uniform_loop s rest new start)"

definition replace_uniform_variables :: "string \<Rightarrow> string" where
  "replace_uniform_variables shader_code =
     (case uniform_loop shader_code (finditer uniform_pattern shader_code) [] 0 of
        (new, start) \<Rightarrow> new @ drop start shader_code)"

subsection \<open>Texture lookups\<close>

definition optimize_texture_lookup :: "string \<Rightarrow> string" where
  "optimize_texture_lookup texture_call = texture_call"

fun texture_loop :: "string \<Rightarrow> rmatch list \<Rightarrow> string \<Rightarrow> nat \<Rightarrow> string \<times> nat" where
  "texture_loop s [] new start = (new, start)"
| "texture_loop s (m # rest) new start =
     (let texture_call = match_text s m;
          optimized_call = optimize_texture_lookup texture_call
      in if optimized_call \<noteq> texture_call then
           texture_loop s rest (new @ slice s start (mstart m) @ optimized_call) (mend m)
         else
           texture_loop s rest (new @ slice s start (mend m)) (mend m))"

definition optimize_texture_lookups :: "string \<Rightarrow> string" where
  "optimize_texture_lookups shader_code =
     (case texture_loop shader_code (finditer texture_pattern shader_code) [] 0 of
        (new, start) \<Rightarrow> new @ drop start shader_code)"

subsection \<open>The pipeline\<close>

text \<open>
  \<^verbatim>\<open>optimize_shader\<close> on the text read from the input file. The division by
  \<^verbatim>\<open>initial_size\<close> raises \<^verbatim>\<open>ZeroDivisionError\<close> before anything is printed or written.
  \<open>boost\<close> is the exact value of \<^verbatim>\<open>100 * (initial_size - optimized_size) / initial_size\<close>;
  the source computes it in binary floating point and rounds it to two decimals for
  printing, which is outside this model.
\<close>

datatype error = ZeroDivisionError

record report =
  optimized_code :: string
  initial_size :: nat
  optimized_size :: nat
  boost :: rat

definition stages :: "string \<Rightarrow> string" where
  "stages shader_code =
     optimize_texture_lookups (replace_uniform_variables (unroll_loops (inline_functions
       (remove_empty_lines (combine_variable_declarations (remove_redundant_variables
         (remove_whitespace (remove_comments shader_code))))))))"

definition optimize_shader :: "string \<Rightarrow> error + report" where
  "optimize_shader shader_code =
     (let initial = length shader_code;
          code = stages shader_code;
          optimized = length code
      in if initial = 0 then Inl ZeroDivisionError
         else Inr \<lparr>optimized_code = code, initial_size = initial, optimized_size = optimized,
                   boost = of_int (100 * (int initial - int optimized)) / of_int (int initial)\<rparr>)"

section \<open>Reference functions for the stages\<close>

text \<open>
  The matches of one scan lie in the text, in order and without overlap: each starts at or
  after \<open>pos\<close> and at or after the end of the one before it.
\<close>

fun sorted_from :: "nat \<Rightarrow> nat \<Rightarrow> rmatch list \<Rightarrow> bool" where
  "sorted_from n pos [] = True"
| "sorted_from n pos (m # rest) =
     (pos \<le> mstart m \<and> mstart m \<le> mend m \<and> mend m \<le> n \<and> sorted_from n (mend m) rest)"

text \<open>
  \<open>emit s f pos xs\<close> is the text from \<open>pos\<close> on with the span of every match \<open>m\<close> of
  \<open>xs\<close> replaced by \<open>f m\<close> and everything between the matches kept in place.
  \<open>replace_span\<close> substitutes one span of a text.
\<close>

fun emit :: "string \<Rightarrow> (rmatch \<Rightarrow> string) \<Rightarrow> nat \<Rightarrow> rmatch list \<Rightarrow> string" where
  "emit s f pos [] = drop pos s"
| "emit s f pos (m # rest) = slice s pos (mstart m) @ f m @ emit s f (mend m) rest"

definition replace_span :: "nat \<times> nat \<times> string \<Rightarrow> string \<Rightarrow> string" where
  "replace_span sp t = (case sp of (a, b, r) \<Rightarrow> take a t @ r @ drop b t)"

text \<open>
  What the uniform stage puts in the place of one matched declaration: the folded
  declaration when the name is in the table, the matched text itself otherwise.
\<close>

definition uniform_known :: "string \<Rightarrow> rmatch \<Rightarrow> bool" where
  "uniform_known s m = (get_uniform_value (match_group s m 2) \<noteq> None)"

definition uniform_folded :: "string \<Rightarrow> rmatch \<Rightarrow> string" where
  "uniform_folded s m =
     (case get_uniform_value (match_group s m 2) of
        Some v \<Rightarrow> match_group s m 1 @ '' '' @ match_group s m 2 @ '' = '' @ v @ '';''
      | None \<Rightarrow> match_text s m)"

text \<open>The groups a pattern can set.\<close>

primrec grps :: "re \<Rightarrow> nat set" where
  "grps (Cls P) = {}"
| "grps Eps = {}"
| "grps (Cat a b) = grps a \<union> grps b"
| "grps (Alt a b) = grps a \<union> grps b"
| "grps (Star a) = grps a"
| "grps (Grp n a) = insert n (grps a)"
| "grps Bol = {}"
| "grps Eol = {}"
| "grps Wb = {}"

text \<open>
  Two declaration matches have the same key when their type names and their variable
  names agree. \<open>first_text s xs m\<close> is the matched text of the first match of \<open>xs\<close> with
  the key of \<open>m\<close>. \<open>decl_key\<close> is the dictionary key the source builds.
\<close>

definition same_decl :: "string \<Rightarrow> rmatch \<Rightarrow> rmatch \<Rightarrow> bool" where
  "same_decl s m m' =
     (match_group s m' 1 = match_group s m 1 \<and> match_group s m' 2 = match_group s m 2)"

definition first_text :: "string \<Rightarrow> rmatch list \<Rightarrow> rmatch \<Rightarrow> string" where
  "first_text s xs m =
     (case find (same_decl s m) xs of Some m' \<Rightarrow> match_text s m' | None \<Rightarrow> match_text s m)"

definition decl_key :: "string \<Rightarrow> rmatch \<Rightarrow> string" where
  "decl_key s m = match_group s m 1 @ '' '' @ match_group s m 2"








text \<open>
  The merge pass as a function of the matched declarations. A declaration is its type name, its
  variable name and its array size. \<open>runs\<close> cuts a list of declarations into the maximal
  runs of consecutive declarations with one type name. \<open>render\<close> writes a run as one
  declaration: the type, the names separated by commas, the size of the first declaration
  and, after a comma each, the sizes of the others that have one. \<open>gaps\<close> is the text
  before and between the matches, \<open>last_end\<close> the end of the last match.
\<close>

type_synonym decl = "string \<times> string \<times> string"

definition decl_of :: "string \<Rightarrow> rmatch \<Rightarrow> decl" where
  "decl_of s m = (match_group s m 1, match_group s m 2, match_group s m 3)"

function runs :: "decl list \<Rightarrow> decl list list" where
  "runs [] = []"
| "runs (d # ds) =
     (d # takeWhile (\<lambda>e. fst e = fst d) ds) # runs (dropWhile (\<lambda>e. fst e = fst d) ds)"
  by pat_completeness auto
termination
  by (relation "measure length") (auto simp: less_Suc_eq_le length_dropWhile_le)

fun sizes_text :: "decl list \<Rightarrow> string" where
  "sizes_text [] = []"
| "sizes_text (d # ds) =
     snd (snd d) @ concat (map (\<lambda>z. '', '' @ z) (filter (\<lambda>z. z \<noteq> []) (map (\<lambda>e. snd (snd e)) ds)))"

fun render :: "decl list \<Rightarrow> string" where
  "render [] = []"
| "render (d # ds) =
     fst d @ '' '' @ join '', '' (map (\<lambda>e. fst (snd e)) (d # ds)) @ sizes_text (d # ds) @ '';''"

fun gaps :: "string \<Rightarrow> nat \<Rightarrow> rmatch list \<Rightarrow> string" where
  "gaps s pos [] = []"
| "gaps s pos (m # rest) = slice s pos (mstart m) @ gaps s (mend m) rest"

fun last_end :: "nat \<Rightarrow> rmatch list \<Rightarrow> nat" where
  "last_end pos [] = pos"
| "last_end pos (m # rest) = last_end (mend m) rest"

text \<open>
  The list \<^verbatim>\<open>var_declarations\<close> after the flush that follows the loop, and the relation
  between the loop's state and the run \<open>g\<close> of declarations it has accumulated.
\<close>

definition final_decls :: "combine_state \<Rightarrow> string list" where
  "final_decls st =
     (if current_var_type st \<noteq> [] then var_declarations st @ [flush_decl st]
      else var_declarations st)"

definition holds :: "combine_state \<Rightarrow> decl list \<Rightarrow> bool" where
  "holds st g =
     (g \<noteq> [] \<and> fst (hd g) \<noteq> [] \<and> current_var_type st = fst (hd g)
      \<and> (\<forall>e \<in> set g. fst e = fst (hd g))
      \<and> current_var_names st = join '', '' (map (\<lambda>e. fst (snd e)) g)
      \<and> current_var_sizes st = sizes_text g)"

text \<open>
  A scan over a text as a plain list recursion: \<open>ml t\<close> is the length of the match at the
  head of \<open>t\<close>, if there is one; a match is replaced by \<open>repl\<close> and the scan goes on
  behind it, any other character is kept.
\<close>

fun scan :: "(string \<Rightarrow> nat option) \<Rightarrow> string \<Rightarrow> string \<Rightarrow> string" where
  "scan ml repl [] = []"
| "scan ml repl (c # cs) =
     (case ml (c # cs) of
        None \<Rightarrow> c # scan ml repl cs
      | Some n \<Rightarrow> repl @ scan ml repl (drop (n - 1) cs))"

fun any_match :: "(string \<Rightarrow> nat option) \<Rightarrow> string \<Rightarrow> bool" where
  "any_match ml [] = False"
| "any_match ml (c # cs) = (ml (c # cs) \<noteq> None \<or> any_match ml cs)"

text \<open>
  The match lengths of the patterns of the two lexical stages, on the text alone: a line
  comment runs from \<^verbatim>\<open>//\<close> to the end of the line, a run of whitespace is as long as
  it can be, and the trailing whitespace is a text of whitespace only.
\<close>

fun ml_line :: "string \<Rightarrow> nat option" where
  "ml_line (a # b # r) =
     (if a = CHR ''/'' \<and> b = CHR ''/''
      then Some (2 + length (takeWhile (\<lambda>c. c \<noteq> newline) r)) else None)"
| "ml_line _ = None"

fun ml_spaces :: "string \<Rightarrow> nat option" where
  "ml_spaces [] = None"
| "ml_spaces (c # r) =
     (if is_space c then Some (1 + length (takeWhile is_space r)) else None)"

definition ml_trail :: "string \<Rightarrow> nat option" where
  "ml_trail t = (if t \<noteq> [] \<and> list_all is_space t then Some (length t) else None)"

text \<open>
  A block comment runs from \<^verbatim>\<open>/*\<close> to the first \<^verbatim>\<open>*/\<close> that begins at least two
  characters later: \<open>find_close r\<close> is the length of the text up to and including the
  first \<^verbatim>\<open>*/\<close> of \<open>r\<close>. \<open>closes_at s j\<close> says that a \<^verbatim>\<open>*/\<close> begins at position
  \<open>j\<close> of \<open>s\<close>.
\<close>

fun find_close :: "string \<Rightarrow> nat option" where
  "find_close (a # b # r) =
     (if a = CHR ''*'' \<and> b = CHR ''/'' then Some 2 else map_option Suc (find_close (b # r)))"
| "find_close _ = None"

fun ml_block :: "string \<Rightarrow> nat option" where
  "ml_block (a # b # r) =
     (if a = CHR ''/'' \<and> b = CHR ''*'' then map_option (\<lambda>n. 2 + n) (find_close r) else None)"
| "ml_block _ = None"

definition closes_at :: "string \<Rightarrow> nat \<Rightarrow> bool" where
  "closes_at s j = (Suc j < length s \<and> s ! j = CHR ''*'' \<and> s ! Suc j = CHR ''/'')"

text \<open>
  The shape of a block comment behind its opening: \<open>star_run s a k1 k2\<close> says that the
  text from \<open>a\<close> holds no star before \<open>k1\<close> and stars only from \<open>k1\<close> up to \<open>k2\<close>;
  \<open>no_close s a b\<close> says that no \<^verbatim>\<open>*/\<close> lies inside the text from \<open>a\<close> up to \<open>b\<close>.
  \<open>block_group\<close> and \<open>block_tail\<close> name two parts of \<open>block_comment_pattern\<close>.
\<close>

definition star_run :: "string \<Rightarrow> nat \<Rightarrow> nat \<Rightarrow> nat \<Rightarrow> bool" where
  "star_run s a k1 k2 =
     (a \<le> k1 \<and> k1 < k2 \<and> k2 \<le> length s
      \<and> (\<forall>x. a \<le> x \<and> x < k1 \<longrightarrow> s ! x \<noteq> CHR ''*'')
      \<and> (\<forall>x. k1 \<le> x \<and> x < k2 \<longrightarrow> s ! x = CHR ''*''))"

definition no_close :: "string \<Rightarrow> nat \<Rightarrow> nat \<Rightarrow> bool" where
  "no_close s a b = (\<forall>j. a \<le> j \<and> Suc j < b \<longrightarrow> \<not> closes_at s j)"

definition block_group :: re where
  "block_group = cat [NoneOf ''/*'', Star (NoneOf ''*''), Rep1 (Lit CHR ''*'')]"

definition block_tail :: re where
  "block_tail = cat [Star (NoneOf ''*''), Rep1 (Lit CHR ''*''), Star block_group, Lit CHR ''/'']"

section \<open>Slices and the matcher\<close>

lemma ms_bounds:
  "(j, c') \<in> set (ms r s i c) \<Longrightarrow> i \<le> length s \<Longrightarrow> i \<le> j \<and> j \<le> length s"
proof (induction r s i c arbitrary: j c' rule: ms.induct)
  case (3 a b s i c)
  from "3.prems"(1) obtain k c'' where k: "(k, c'') \<in> set (ms a s i c)"
    and j: "(j, c') \<in> set (ms b s k c'')"
    by auto
  from "3.IH"(1)[OF k "3.prems"(2)] have ik: "i \<le> k" "k \<le> length s" by auto
  from "3.IH"(2)[OF k _ j ik(2)] have "k \<le> j \<and> j \<le> length s" by simp
  with ik show ?case by simp
next
  case (5 a s i c)
  show ?case
  proof (cases "(j, c') = (i, c)")
    case True
    with "5.prems" show ?thesis by simp
  next
    case False
    with "5.prems"(1) have "(j, c') \<in> set (concat (map (\<lambda>(j, c'). if i < j \<and> j \<le> length s then ms (Star a) s j c' else [])
                 (ms a s i c)))" by (subst (asm) ms.simps(5)) auto
    then obtain k c'' where k: "(k, c'') \<in> set (ms a s i c)"
      and g: "i < k" "k \<le> length s" and j: "(j, c') \<in> set (ms (Star a) s k c'')"
      by (auto split: if_splits)
    from "5.IH"(2)[OF k _ _ j g(2)] g have "k \<le> j \<and> j \<le> length s" by simp
    with g show ?thesis by simp
  qed
qed (auto split: if_splits)

lemma sorted_from_mono: "sorted_from n pos xs \<Longrightarrow> pos' \<le> pos \<Longrightarrow> sorted_from n pos' xs"
  by (cases xs) auto

lemma finditer_from_sorted: "sorted_from (length s) i (finditer_from r s i)"
proof (induction r s i rule: finditer_from.induct)
  case (1 r s i)
  show ?case
  proof (cases "length s < i")
    case True
    then show ?thesis by (subst finditer_from.simps) simp
  next
    case le: False
    show ?thesis
    proof (cases "ms r s i Map.empty")
      case Nil
      with le "1.IH"(1) have "sorted_from (length s) (Suc i) (finditer_from r s (Suc i))" by simp
      then have "sorted_from (length s) i (finditer_from r s (Suc i))"
        by (rule sorted_from_mono) simp
      with le Nil show ?thesis by (subst finditer_from.simps) simp
    next
      case (Cons x xs)
      obtain e c where x: "x = (e, c)" by (cases x)
      have "(e, c) \<in> set (ms r s i Map.empty)" using Cons x by simp
      with le have b: "i \<le> e" "e \<le> length s" using ms_bounds[of e c r s i Map.empty] by auto
      from "1.IH"(2)[OF le Cons x[symmetric]]
      have "sorted_from (length s) (if i < e then e else Suc i)
              (finditer_from r s (if i < e then e else Suc i))" by simp
      then have "sorted_from (length s) e (finditer_from r s (if i < e then e else Suc i))"
        by (rule sorted_from_mono) (use b in auto)
      with le Cons x b show ?thesis by (subst finditer_from.simps) simp
    qed
  qed
qed

lemma finditer_from_ms:
  "m \<in> set (finditer_from r s i) \<Longrightarrow>
     mstart m \<le> length s \<and> (\<exists>rest. ms r s (mstart m) Map.empty = (mend m, mgroups m) # rest)"
proof (induction r s i rule: finditer_from.induct)
  case (1 r s i)
  show ?case
  proof (cases "length s < i")
    case True
    with "1.prems" show ?thesis by (subst (asm) finditer_from.simps) simp
  next
    case le: False
    show ?thesis
    proof (cases "ms r s i Map.empty")
      case Nil
      with le "1.prems" have "m \<in> set (finditer_from r s (Suc i))"
        by (subst (asm) finditer_from.simps) simp
      with "1.IH"(1)[OF le Nil] show ?thesis by simp
    next
      case (Cons x xs)
      obtain e c where x: "x = (e, c)" by (cases x)
      from "1.prems" le Cons x
      consider "m = \<lparr>mstart = i, mend = e, mgroups = c\<rparr>"
        | "m \<in> set (finditer_from r s (if i < e then e else Suc i))"
        by (subst (asm) finditer_from.simps) auto
      then show ?thesis
      proof cases
        case 1
        with le Cons x show ?thesis by simp
      next
        case 2
        with "1.IH"(2)[OF le Cons x[symmetric]] show ?thesis by simp
      qed
    qed
  qed
qed

lemma slice_append: "a \<le> b \<Longrightarrow> b \<le> c \<Longrightarrow> slice s a b @ slice s b c = slice s a c"
proof -
  assume ab: "a \<le> b" and bc: "b \<le> c"
  have "take (c - a) (drop a s) = take (b - a) (drop a s) @ take (c - b) (drop (b - a) (drop a s))"
    using ab bc take_add[of "b - a" "c - b" "drop a s"] by simp
  with ab show ?thesis by (simp add: slice_def)
qed

lemma slice_drop: "a \<le> b \<Longrightarrow> slice s a b @ drop b s = drop a s"
proof -
  assume ab: "a \<le> b"
  have "take (b - a) (drop a s) @ drop (b - a) (drop a s) = drop a s" by (rule append_take_drop_id)
  with ab show ?thesis by (simp add: slice_def)
qed

lemma take_slice: "a \<le> b \<Longrightarrow> take a s @ slice s a b = take b s"
proof -
  assume ab: "a \<le> b"
  have "take (a + (b - a)) s = take a s @ take (b - a) (drop a s)" by (rule take_add)
  with ab show ?thesis by (simp add: slice_def)
qed

lemma emit_shift:
  "sorted_from n pos' xs \<Longrightarrow> pos \<le> pos' \<Longrightarrow> emit s f pos xs = slice s pos pos' @ emit s f pos' xs"
proof (cases xs)
  case Nil
  assume "pos \<le> pos'"
  with Nil show ?thesis by (simp add: slice_drop)
next
  case (Cons m rest)
  assume "sorted_from n pos' xs" "pos \<le> pos'"
  with Cons have "slice s pos pos' @ slice s pos' (mstart m) = slice s pos (mstart m)"
    by (intro slice_append) simp_all
  with Cons show ?thesis by simp
qed

lemma sorted_from_filter: "sorted_from n pos xs \<Longrightarrow> sorted_from n pos (filter P xs)"
proof (induction xs arbitrary: pos)
  case Nil
  then show ?case by simp
next
  case (Cons m xs)
  then have "sorted_from n (mend m) (filter P xs)" by simp
  then have "sorted_from n pos (filter P xs)" by (rule sorted_from_mono) (use Cons.prems in simp)
  with Cons show ?case by simp
qed

lemma emit_keep:
  "sorted_from n pos xs \<Longrightarrow> (\<And>m. m \<in> set xs \<Longrightarrow> \<not> P m \<Longrightarrow> f m = slice s (mstart m) (mend m)) \<Longrightarrow>
   emit s f pos xs = emit s f pos (filter P xs)"
proof (induction xs arbitrary: pos)
  case Nil
  then show ?case by simp
next
  case (Cons m xs)
  have IH: "emit s f (mend m) xs = emit s f (mend m) (filter P xs)"
    using Cons by simp
  show ?case
  proof (cases "P m")
    case True
    with IH show ?thesis by simp
  next
    case False
    have sf: "sorted_from n (mend m) (filter P xs)" using Cons.prems(1) by (simp add: sorted_from_filter)
    have b: "pos \<le> mstart m" "mstart m \<le> mend m" using Cons.prems(1) by simp_all
    have "emit s f pos (filter P xs) = slice s pos (mend m) @ emit s f (mend m) (filter P xs)"
      using emit_shift[OF sf, of pos] b by simp
    moreover have "f m = slice s (mstart m) (mend m)" using Cons.prems(2) False by simp
    moreover have "slice s pos (mstart m) @ slice s (mstart m) (mend m) = slice s pos (mend m)"
      using b by (intro slice_append)
    ultimately show ?thesis using False IH by simp
  qed
qed

lemma foldr_replace_span:
  "sorted_from (length s) pos xs \<Longrightarrow>
   foldr replace_span (map (\<lambda>m. (mstart m, mend m, f m)) xs) s = take pos s @ emit s f pos xs"
proof (induction xs arbitrary: pos)
  case Nil
  then show ?case by simp
next
  case (Cons m xs)
  have b: "pos \<le> mstart m" "mstart m \<le> mend m" "mend m \<le> length s" using Cons.prems by simp_all
  have IH: "foldr replace_span (map (\<lambda>m. (mstart m, mend m, f m)) xs) s = take (mend m) s @ emit s f (mend m) xs"
    using Cons by simp
  have "replace_span (mstart m, mend m, f m) (take (mend m) s @ emit s f (mend m) xs)
        = take (mstart m) s @ f m @ emit s f (mend m) xs"
    using b by (simp add: replace_span_def min_absorb2)
  with IH b show ?case by (simp add: take_slice)
qed

lemma finditer_sorted: "sorted_from (length s) 0 (finditer r s)"
  by (simp add: finditer_def finditer_from_sorted)

section \<open>Uniform folding\<close>

lemma uniform_loop_emit:
  "(case uniform_loop s xs new start of (new', start') \<Rightarrow> new' @ drop start' s)
     = new @ emit s (uniform_folded s) start (filter (uniform_known s) xs)"
proof (induction xs arbitrary: new start)
  case Nil
  then show ?case by simp
next
  case (Cons m xs)
  show ?case
  proof (cases "get_uniform_value (match_group s m 2)")
    case None
    then show ?thesis using Cons[of new start] by (simp add: uniform_known_def)
  next
    case (Some v)
    then show ?thesis
      using Cons[of "new @ slice s start (mstart m)
                  @ match_group s m 1 @ '' '' @ match_group s m 2 @ '' = '' @ v @ '';''" "mend m"]
      by (simp add: uniform_known_def uniform_folded_def)
  qed
qed

lemma replace_uniform_variables_filter:
  "replace_uniform_variables s
     = emit s (uniform_folded s) 0 (filter (uniform_known s) (finditer uniform_pattern s))"
  using uniform_loop_emit[of s "finditer uniform_pattern s" "[]" 0]
  by (simp add: replace_uniform_variables_def)

text \<open>
  Claim C1, as the code has it. For every text, the output of
  \<^verbatim>\<open>replace_uniform_variables\<close> is the input with every matched uniform declaration
  replaced by its piece and the text between the matches kept: the piece of a declaration
  whose name is in the table is \<^verbatim>\<open><type> <name> = <value>;\<close>, and the piece of a
  declaration whose name is absent is the matched declaration itself, which is not deleted.
\<close>

theorem replace_uniform_variables_pieces:
  "replace_uniform_variables s = emit s (uniform_folded s) 0 (finditer uniform_pattern s)"
proof -
  have "emit s (uniform_folded s) 0 (finditer uniform_pattern s)
        = emit s (uniform_folded s) 0 (filter (uniform_known s) (finditer uniform_pattern s))"
    by (rule emit_keep[OF finditer_sorted])
       (simp add: uniform_known_def uniform_folded_def match_text_def)
  then show ?thesis by (simp add: replace_uniform_variables_filter)
qed

text \<open>
  Claim C1 as stated fails: the declaration of a uniform that is not in the table is matched
  and stays in the output, where the claim has the empty string.
\<close>

theorem replace_uniform_variables_unknown_kept:
  "get_uniform_value ''u_unknown'' = None \<and>
   replace_uniform_variables ''uniform float u_unknown;'' = ''uniform float u_unknown;''"
  by code_simp

text \<open>
  Claim C10. For every text, the output of \<^verbatim>\<open>replace_uniform_variables\<close> is the input
  in which only the spans of the matched declarations with a known name are substituted (by
  the folded declaration); every other character, the declarations with an unknown name
  included, stays in place and in order.
\<close>

theorem replace_uniform_variables_frame:
  "replace_uniform_variables s =
     foldr replace_span
       (map (\<lambda>m. (mstart m, mend m, uniform_folded s m))
            (filter (uniform_known s) (finditer uniform_pattern s))) s"
proof -
  have "sorted_from (length s) 0 (filter (uniform_known s) (finditer uniform_pattern s))"
    by (rule sorted_from_filter[OF finditer_sorted])
  from foldr_replace_span[OF this] show ?thesis
    by (simp add: replace_uniform_variables_filter)
qed

section \<open>The pipeline on the empty text\<close>

text \<open>
  Claim C6. On the zero-length input \<^verbatim>\<open>initial_size\<close> is \<open>0\<close> and the percentage
  computation divides by it: \<^verbatim>\<open>optimize_shader\<close> raises \<^verbatim>\<open>ZeroDivisionError\<close>.
\<close>

theorem optimize_shader_empty_input:
  "optimize_shader [] = Inl ZeroDivisionError"
  by (simp add: optimize_shader_def)

section \<open>What the groups of a declaration hold\<close>

lemma ms_Star_set:
  "(j, c') \<in> set (ms (Star a) s i c) \<Longrightarrow>
     (j, c') = (i, c) \<or>
     (\<exists>k c''. (k, c'') \<in> set (ms a s i c) \<and> i < k \<and> k \<le> length s
               \<and> (j, c') \<in> set (ms (Star a) s k c''))"
  by (subst (asm) ms.simps(5)) (auto split: if_splits)

lemma ms_Cat_set:
  "(j, c') \<in> set (ms (Cat a b) s i c) \<Longrightarrow>
     \<exists>k c''. (k, c'') \<in> set (ms a s i c) \<and> (j, c') \<in> set (ms b s k c'')"
  by auto

lemma ms_preserves:
  "(j, c') \<in> set (ms r s i c) \<Longrightarrow> n \<notin> grps r \<Longrightarrow> c' n = c n"
proof (induction r s i c arbitrary: j c' rule: ms.induct)
  case (3 a b s i c)
  from ms_Cat_set[OF "3.prems"(1)] obtain k c'' where k: "(k, c'') \<in> set (ms a s i c)"
    and j: "(j, c') \<in> set (ms b s k c'')" by blast
  from "3.IH"(1)[OF k] "3.prems"(2) have "c'' n = c n" by simp
  moreover from "3.IH"(2)[OF k _ j] "3.prems"(2) have "c' n = c'' n" by simp
  ultimately show ?case by simp
next
  case (5 a s i c)
  from ms_Star_set[OF "5.prems"(1)] show ?case
  proof
    assume "(j, c') = (i, c)"
    then show ?thesis by simp
  next
    assume "\<exists>k c''. (k, c'') \<in> set (ms a s i c) \<and> i < k \<and> k \<le> length s
               \<and> (j, c') \<in> set (ms (Star a) s k c'')"
    then obtain k c'' where k: "(k, c'') \<in> set (ms a s i c)" and g: "i < k" "k \<le> length s"
      and j: "(j, c') \<in> set (ms (Star a) s k c'')" by blast
    from "5.IH"(1)[OF k] "5.prems"(2) have "c'' n = c n" by simp
    moreover from "5.IH"(2)[OF k _ _ j] g "5.prems"(2) have "c' n = c'' n" by simp
    ultimately show ?thesis by simp
  qed
qed (auto split: if_splits)

lemma ms_Star_Cls:
  "(j, c') \<in> set (ms (Star (Cls P)) s i c) \<Longrightarrow>
     c' = c \<and> i \<le> j \<and> (\<forall>x. i \<le> x \<and> x < j \<longrightarrow> x < length s \<and> P (s ! x))"
proof (induction "length s - i" arbitrary: i rule: less_induct)
  case less
  from ms_Star_set[OF less.prems] show ?case
  proof
    assume "(j, c') = (i, c)"
    then show ?thesis by auto
  next
    assume "\<exists>k c''. (k, c'') \<in> set (ms (Cls P) s i c) \<and> i < k \<and> k \<le> length s
               \<and> (j, c') \<in> set (ms (Star (Cls P)) s k c'')"
    then obtain k c'' where k: "(k, c'') \<in> set (ms (Cls P) s i c)" and g: "i < k" "k \<le> length s"
      and j: "(j, c') \<in> set (ms (Star (Cls P)) s k c'')" by blast
    from k have kk: "k = Suc i" "c'' = c" "i < length s" "P (s ! i)"
      by (auto split: if_splits)
    from less.hyps[of "Suc i"] j kk
    have "c' = c \<and> Suc i \<le> j \<and> (\<forall>x. Suc i \<le> x \<and> x < j \<longrightarrow> x < length s \<and> P (s ! x))"
      by simp
    with kk show ?thesis
      by (metis Suc_leI le_neq_implies_less order_less_imp_le Suc_le_lessD)
  qed
qed

lemma ms_Grp_Rep1_Cls:
  "(j, c') \<in> set (ms (Grp n (Rep1 (Cls P))) s i c) \<Longrightarrow>
     c' n = Some (i, j) \<and> i < j \<and> j \<le> length s \<and> (\<forall>x. i \<le> x \<and> x < j \<longrightarrow> P (s ! x))"
proof -
  assume "(j, c') \<in> set (ms (Grp n (Rep1 (Cls P))) s i c)"
  then obtain c1 where c1: "(j, c1) \<in> set (ms (Cat (Cls P) (Star (Cls P))) s i c)"
    and c': "c' = c1(n \<mapsto> (i, j))"
    by (auto simp: Rep1_def)
  from ms_Cat_set[OF c1] obtain k c2 where k: "(k, c2) \<in> set (ms (Cls P) s i c)"
    and j: "(j, c1) \<in> set (ms (Star (Cls P)) s k c2)" by blast
  from k have kk: "k = Suc i" "i < length s" "P (s ! i)" by (auto split: if_splits)
  from ms_bounds[OF j] kk have "j \<le> length s" by simp
  moreover from ms_Star_Cls[OF j] kk
  have "Suc i \<le> j \<and> (\<forall>x. Suc i \<le> x \<and> x < j \<longrightarrow> P (s ! x))" by simp
  ultimately show ?thesis using c' kk
    by (metis Suc_leI Suc_le_lessD fun_upd_same le_neq_implies_less)
qed

lemma var_decl_group1:
  assumes "(j, c') \<in> set (ms var_decl_pattern s i c)"
  shows "\<exists>k. c' 1 = Some (i, k) \<and> i < k \<and> k \<le> length s \<and> (\<forall>x. i \<le> x \<and> x < k \<longrightarrow> is_word (s ! x))"
proof -
  define R where "R = cat [Rep1 (Cls is_space),
          Grp 2 (Rep1 (Cls is_word)), Star (Cls is_space), Opt (Lit CHR ''[''),
          Star (Cls is_space), Grp 3 (Star (Cls is_digit)), Star (Cls is_space),
          Opt (Lit CHR '']''), Star (Cls is_space), Lit CHR '';'']"
  have p: "var_decl_pattern = Cat Wb (Cat (Grp 1 (Rep1 (Cls is_word))) R)"
    by (simp add: var_decl_pattern_def R_def cat_def)
  have nR: "1 \<notin> grps R"
    by (simp add: R_def cat_def Rep1_def Opt_def Lit_def)
  from assms obtain k0 c0 where k0: "(k0, c0) \<in> set (ms Wb s i c)"
    and r0: "(j, c') \<in> set (ms (Cat (Grp 1 (Rep1 (Cls is_word))) R) s k0 c0)"
    unfolding p using ms_Cat_set by blast
  from k0 have e0: "k0 = i" by (auto split: if_splits)
  from ms_Cat_set[OF r0] obtain k c1 where k: "(k, c1) \<in> set (ms (Grp 1 (Rep1 (Cls is_word))) s k0 c0)"
    and r: "(j, c') \<in> set (ms R s k c1)" by blast
  from ms_preserves[OF r nR] have "c' 1 = c1 1" .
  with ms_Grp_Rep1_Cls[OF k] e0 show ?thesis by auto
qed

lemma slice_nth:
  "x \<in> set (slice s a b) \<Longrightarrow> \<exists>k. a \<le> k \<and> k < b \<and> k < length s \<and> x = s ! k"
proof -
  assume "x \<in> set (slice s a b)"
  then obtain n where n: "n < length (take (b - a) (drop a s))" and x: "x = take (b - a) (drop a s) ! n"
    by (auto simp: slice_def in_set_conv_nth)
  from n have "n < b - a" "a + n < length s" by auto
  with x have "a \<le> a + n \<and> a + n < b \<and> a + n < length s \<and> x = s ! (a + n)" by simp
  then show ?thesis by blast
qed

lemma var_decl_type_word:
  assumes "m \<in> set (finditer var_decl_pattern s)"
  shows "match_group s m 1 \<noteq> [] \<and> (\<forall>x \<in> set (match_group s m 1). is_word x)"
proof -
  from assms finditer_from_ms[of m var_decl_pattern s 0]
  obtain rest where le: "mstart m \<le> length s"
    and r: "ms var_decl_pattern s (mstart m) Map.empty = (mend m, mgroups m) # rest"
    by (auto simp: finditer_def)
  then have "(mend m, mgroups m) \<in> set (ms var_decl_pattern s (mstart m) Map.empty)" by simp
  from var_decl_group1[OF this] obtain k where k: "mgroups m 1 = Some (mstart m, k)"
    "mstart m < k" "k \<le> length s" "\<forall>x. mstart m \<le> x \<and> x < k \<longrightarrow> is_word (s ! x)" by blast
  then have g: "match_group s m 1 = slice s (mstart m) k" by (simp add: match_group_def)
  have "slice s (mstart m) k \<noteq> []" using k by (simp add: slice_def)
  moreover have "\<forall>x \<in> set (slice s (mstart m) k). is_word x"
    using slice_nth k(4) by blast
  ultimately show ?thesis using g by simp
qed

lemma space_not_word: "\<not> is_word CHR '' ''"
  by (simp add: is_word_def)

lemma key_eq:
  assumes "CHR '' '' \<notin> set t" "CHR '' '' \<notin> set t'"
  shows "(t @ '' '' @ n = t' @ '' '' @ n') = (t = t' \<and> n = n')"
proof
  assume e: "t @ '' '' @ n = t' @ '' '' @ n'"
  have "takeWhile (\<lambda>c. c \<noteq> CHR '' '') (t @ '' '' @ n) = t"
    using assms(1) by (simp add: takeWhile_append2 takeWhile_append)
  moreover have "takeWhile (\<lambda>c. c \<noteq> CHR '' '') (t' @ '' '' @ n') = t'"
    using assms(2) by (simp add: takeWhile_append2 takeWhile_append)
  ultimately have "t = t'" using e by simp
  with e show "t = t' \<and> n = n'" by simp
next
  assume "t = t' \<and> n = n'"
  then show "t @ '' '' @ n = t' @ '' '' @ n'" by simp
qed

section \<open>Redundant declarations\<close>

lemma find_append_hit:
  "P m \<Longrightarrow> find P (xs @ m # ys) = find P (xs @ [m])"
  by (induction xs) auto

lemma hd_filter_find:
  "find P xs = Some x \<Longrightarrow> hd (map f (filter P xs)) = f x"
  by (induction xs) (auto split: if_splits)

lemma find_hit: "P m \<Longrightarrow> \<exists>x. find P (xs @ [m]) = Some x"
  by (induction xs) auto

lemma redundant_loop_emit:
  assumes "\<forall>k. dd_get d k = map (match_text s) (filter (\<lambda>m. decl_key s m = k) seen)"
    and "\<forall>m \<in> set (seen @ rest). CHR '' '' \<notin> set (match_group s m 1)"
  shows "(case redundant_loop s rest d new start of (new', start') \<Rightarrow> new' @ drop start' s)
           = new @ emit s (first_text s (seen @ rest)) start rest"
  using assms
proof (induction rest arbitrary: seen d new start)
  case Nil
  then show ?case by simp
next
  case (Cons m rest)
  let ?key = "decl_key s m"
  let ?entry = "dd_get d ?key @ [match_text s m]"
  let ?d = "d(?key \<mapsto> ?entry)"
  have inv: "\<forall>k. dd_get ?d k = map (match_text s) (filter (\<lambda>m'. decl_key s m' = k) (seen @ [m]))"
    using Cons.prems(1) by (simp add: dd_get_def)
  have nosp: "\<forall>m' \<in> set ((seen @ [m]) @ rest). CHR '' '' \<notin> set (match_group s m' 1)"
    using Cons.prems(2) by simp
  have eqv: "(decl_key s m' = ?key) = same_decl s m m'" if "m' \<in> set (seen @ [m])" for m'
  proof -
    from that Cons.prems(2) have "CHR '' '' \<notin> set (match_group s m' 1)" by auto
    moreover from Cons.prems(2) have "CHR '' '' \<notin> set (match_group s m 1)" by auto
    ultimately show ?thesis
      unfolding decl_key_def same_decl_def by (rule key_eq)
  qed
  have entry: "?entry = map (match_text s) (filter (same_decl s m) (seen @ [m]))"
  proof -
    have "?entry = map (match_text s) (filter (\<lambda>m'. decl_key s m' = ?key) (seen @ [m]))"
      using Cons.prems(1) by simp
    also have "filter (\<lambda>m'. decl_key s m' = ?key) (seen @ [m]) = filter (same_decl s m) (seen @ [m])"
      by (rule filter_cong[OF refl]) (use eqv in blast)
    finally show ?thesis .
  qed
  have self: "same_decl s m m" by (simp add: same_decl_def)
  from find_hit[of "same_decl s m" m seen] self
  obtain x where x: "find (same_decl s m) (seen @ [m]) = Some x" by blast
  have "find (same_decl s m) (seen @ m # rest) = Some x"
    using find_append_hit[of "same_decl s m" m seen rest] self x by simp
  then have ft: "first_text s (seen @ m # rest) m = match_text s x" by (simp add: first_text_def)
  have hd: "hd ?entry = match_text s x" unfolding entry using hd_filter_find[OF x] .
  have step: "redundant_loop s (m # rest) d new start
        = redundant_loop s rest ?d (new @ slice s start (mstart m) @ hd ?entry) (mend m)"
    by (simp add: Let_def decl_key_def)
  from Cons.IH[OF inv nosp, of "new @ slice s start (mstart m) @ hd ?entry" "mend m"]
  show ?case unfolding step using ft hd by (simp add: fun_upd_def)
qed

lemma remove_redundant_variables_emit:
  "remove_redundant_variables s
     = emit s (first_text s (finditer var_decl_pattern s)) 0 (finditer var_decl_pattern s)"
proof -
  have "\<forall>m \<in> set ([] @ finditer var_decl_pattern s). CHR '' '' \<notin> set (match_group s m 1)"
    using var_decl_type_word space_not_word by auto
  from redundant_loop_emit[of Map.empty s "[]", OF _ this, of "[]" 0]
  show ?thesis by (simp add: remove_redundant_variables_def dd_get_def)
qed

lemma remove_redundant_variables_example:
  "map (match_text ''int a; int a; float b;'') (finditer var_decl_pattern ''int a; int a; float b;'')
     = [''int a;'', ''int a;'', ''float b;''] \<and>
   remove_redundant_variables ''int a; int a; float b;'' = ''int a; int a; float b;''"
  by code_simp

text \<open>
  Claim C8. For every text, the output of \<^verbatim>\<open>remove_redundant_variables\<close> is the input
  with the text between the matches in place and every matched declaration replaced by the
  matched text of the first declaration with the same type name and variable name: the
  first one of a key by its own text, every later one by a copy of the first, none deleted.
  On \<^verbatim>\<open>int a; int a; float b;\<close> the three declarations are matched, the second is
  overwritten with the text of the first, and \<^verbatim>\<open>float b;\<close> is unaffected.
\<close>

theorem remove_redundant_variables_first_text:
  "remove_redundant_variables s
     = emit s (first_text s (finditer var_decl_pattern s)) 0 (finditer var_decl_pattern s) \<and>
   map (match_text ''int a; int a; float b;'') (finditer var_decl_pattern ''int a; int a; float b;'')
     = [''int a;'', ''int a;'', ''float b;''] \<and>
   remove_redundant_variables ''int a; int a; float b;'' = ''int a; int a; float b;''"
  using remove_redundant_variables_emit remove_redundant_variables_example by simp

section \<open>Function and loop bodies\<close>

text \<open>
  Claim C2. Scanning from just after the opening brace of \<^verbatim>\<open>{a}b\<close>, the depth reaches
  \<open>0\<close> at the closing brace, at offset 2. The claim has the body end before that
  position, which is the text \<^verbatim>\<open>a\<close>; the source increments \<^verbatim>\<open>end_index\<close> once more
  after counting the brace, and both scanners return \<^verbatim>\<open>a}\<close>, closing brace included.
  Where the depth never reaches \<open>0\<close>, as in \<^verbatim>\<open>{ab\<close>, they return the text to its end.
\<close>

theorem find_function_body_keeps_closing_brace:
  "find_function_body ''{a}b'' 1 = ''a}'' \<and> find_loop_body ''{a}b'' 1 = ''a}'' \<and>
   find_function_body ''{ab'' 1 = ''ab'' \<and> find_loop_body ''{ab'' 1 = ''ab''"
  by code_simp

text \<open>
  Claim C3. The callable of \<^verbatim>\<open>void f(){a}X\<close> has the body \<^verbatim>\<open>a\<close>, so the claim has the
  output \<^verbatim>\<open>aX\<close>. The extracted body is \<^verbatim>\<open>a}\<close>, and the source resumes one character
  after it: the closing brace stays and the \<^verbatim>\<open>X\<close> that follows the callable is lost.
\<close>

theorem inline_functions_keeps_brace_drops_next:
  "find_function_body ''void f(){a}X'' 9 = ''a}'' \<and> inline_functions ''void f(){a}X'' = ''a}''"
  by code_simp

section \<open>Loop unrolling\<close>










section \<open>Combining declarations\<close>

lemma combine_step_text:
  "new_shader_code (combine_step s st m) = new_shader_code st @ slice s (cstart st) (mstart m)
   \<and> cstart (combine_step s st m) = mend m"
  by (simp add: combine_step_def Let_def)

lemma combine_fold_text:
  "new_shader_code (foldl (combine_step s) st xs) = new_shader_code st @ gaps s (cstart st) xs
   \<and> cstart (foldl (combine_step s) st xs) = last_end (cstart st) xs"
proof (induction xs arbitrary: st)
  case Nil
  then show ?case by simp
next
  case (Cons m xs)
  from Cons[of "combine_step s st m"] combine_step_text[of s st m]
  show ?case by simp
qed

lemma join_snoc: "xs \<noteq> [] \<Longrightarrow> join sep (xs @ [x]) = join sep xs @ sep @ x"
  by (induction sep xs rule: join.induct) auto

lemma sizes_text_snoc:
  "g \<noteq> [] \<Longrightarrow> sizes_text (g @ [d]) = sizes_text g @ (if snd (snd d) \<noteq> [] then '', '' @ snd (snd d) else [])"
  by (cases g) auto

lemma holds_flush: "holds st g \<Longrightarrow> flush_decl st = render g"
  by (cases g) (auto simp: holds_def flush_decl_def)

lemma runs_same:
  assumes "g \<noteq> []" "\<forall>e \<in> set g. fst e = fst (hd g)"
  shows "runs (g @ ds) = (g @ takeWhile (\<lambda>e. fst e = fst (hd g)) ds)
                           # runs (dropWhile (\<lambda>e. fst e = fst (hd g)) ds)"
proof -
  from assms(1) obtain d g' where g: "g = d # g'" by (cases g) auto
  with assms(2) have all: "\<forall>e \<in> set g'. fst e = fst d" by simp
  then have "takeWhile (\<lambda>e. fst e = fst d) (g' @ ds) = g' @ takeWhile (\<lambda>e. fst e = fst d) ds"
    and "dropWhile (\<lambda>e. fst e = fst d) (g' @ ds) = dropWhile (\<lambda>e. fst e = fst d) ds"
    by (simp_all add: takeWhile_append2 dropWhile_append2)
  with g show ?thesis by simp
qed

lemma combine_step_fields_same:
  assumes "current_var_type st \<noteq> []" "current_var_type st = match_group s m 1"
  shows "current_var_type (combine_step s st m) = current_var_type st"
    and "current_var_names (combine_step s st m)
           = current_var_names st @ '', '' @ match_group s m 2"
    and "current_var_sizes (combine_step s st m)
           = current_var_sizes st
               @ (if match_group s m 3 \<noteq> [] then '', '' @ match_group s m 3 else [])"
    and "var_declarations (combine_step s st m) = var_declarations st"
  using assms by (simp_all add: combine_step_def Let_def)

lemma combine_step_fields_other:
  assumes "current_var_type st \<noteq> match_group s m 1"
  shows "current_var_type (combine_step s st m) = match_group s m 1"
    and "current_var_names (combine_step s st m) = match_group s m 2"
    and "current_var_sizes (combine_step s st m) = match_group s m 3"
    and "var_declarations (combine_step s st m)
           = (if current_var_type st = [] then var_declarations st
              else var_declarations st @ [flush_decl st])"
  using assms by (simp_all add: combine_step_def Let_def)

lemma combine_step_same:
  assumes "holds st g" "match_group s m 1 = fst (hd g)"
  shows "holds (combine_step s st m) (g @ [decl_of s m])
         \<and> var_declarations (combine_step s st m) = var_declarations st"
proof -
  let ?st = "combine_step s st m" and ?g = "g @ [decl_of s m]"
  from assms(1) have g: "g \<noteq> []" and t0: "fst (hd g) \<noteq> []"
    and ty: "current_var_type st = fst (hd g)"
    and al: "\<forall>e \<in> set g. fst e = fst (hd g)"
    and nm: "current_var_names st = join '', '' (map (\<lambda>e. fst (snd e)) g)"
    and sz: "current_var_sizes st = sizes_text g"
    unfolding holds_def by blast+
  have ne: "current_var_type st \<noteq> []" using ty t0 by simp
  have eq: "current_var_type st = match_group s m 1" using ty assms(2) by simp
  note f = combine_step_fields_same[OF ne eq]
  have hd: "hd ?g = hd g" using g by simp
  have 1: "?g \<noteq> []" by simp
  have 2: "fst (hd ?g) \<noteq> []" using hd t0 by simp
  have 3: "current_var_type ?st = fst (hd ?g)" using f(1) ty hd by simp
  have "fst (decl_of s m) = fst (hd g)" using assms(2) by (simp add: decl_of_def)
  then have 4: "\<forall>e \<in> set ?g. fst e = fst (hd ?g)" using al hd by simp
  have "join '', '' (map (\<lambda>e. fst (snd e)) ?g)
        = join '', '' (map (\<lambda>e. fst (snd e)) g) @ '', '' @ match_group s m 2"
    using g join_snoc[of "map (\<lambda>e. fst (snd e)) g" "'', ''" "match_group s m 2"]
    by (simp add: decl_of_def)
  then have 5: "current_var_names ?st = join '', '' (map (\<lambda>e. fst (snd e)) ?g)"
    using f(2) nm by simp
  have "sizes_text ?g
        = sizes_text g @ (if match_group s m 3 \<noteq> [] then '', '' @ match_group s m 3 else [])"
    using sizes_text_snoc[OF g, of "decl_of s m"] by (simp add: decl_of_def)
  then have 6: "current_var_sizes ?st = sizes_text ?g"
    using f(3) sz by simp
  from 1 2 3 4 5 6 have "holds ?st ?g" unfolding holds_def by blast
  with f(4) show ?thesis by blast
qed

lemma combine_step_other:
  assumes "holds st g" "match_group s m 1 \<noteq> fst (hd g)" "match_group s m 1 \<noteq> []"
  shows "holds (combine_step s st m) [decl_of s m]
         \<and> var_declarations (combine_step s st m) = var_declarations st @ [render g]"
proof -
  let ?st = "combine_step s st m"
  from assms(1) have ty: "current_var_type st = fst (hd g)" and t0: "fst (hd g) \<noteq> []"
    unfolding holds_def by blast+
  have ne: "current_var_type st \<noteq> []" using ty t0 by simp
  have neq: "current_var_type st \<noteq> match_group s m 1" using ty assms(2) by simp
  note f = combine_step_fields_other[OF neq]
  have 2: "fst (hd [decl_of s m]) \<noteq> []" using assms(3) by (simp add: decl_of_def)
  have 3: "current_var_type ?st = fst (hd [decl_of s m])" using f(1) by (simp add: decl_of_def)
  have 5: "current_var_names ?st = join '', '' (map (\<lambda>e. fst (snd e)) [decl_of s m])"
    using f(2) by (simp add: decl_of_def)
  have 6: "current_var_sizes ?st = sizes_text [decl_of s m]"
    using f(3) by (simp add: decl_of_def)
  from 2 3 5 6 have "holds ?st [decl_of s m]" unfolding holds_def by simp
  moreover have "var_declarations ?st = var_declarations st @ [render g]"
    using f(4) ne holds_flush[OF assms(1)] by simp
  ultimately show ?thesis by blast
qed

lemma holds_parts:
  assumes "holds st g"
  shows "g \<noteq> []" and "current_var_type st \<noteq> []" and "\<forall>e \<in> set g. fst e = fst (hd g)"
proof -
  from assms have a: "g \<noteq> []" and b: "fst (hd g) \<noteq> []" and c: "current_var_type st = fst (hd g)"
    and d: "\<forall>e \<in> set g. fst e = fst (hd g)"
    unfolding holds_def by blast+
  show "g \<noteq> []" by (rule a)
  show "current_var_type st \<noteq> []" using b c by simp
  show "\<forall>e \<in> set g. fst e = fst (hd g)" by (rule d)
qed

lemma combine_fold_decls:
  assumes "holds st g" "\<forall>m \<in> set xs. match_group s m 1 \<noteq> []"
  shows "final_decls (foldl (combine_step s) st xs)
           = var_declarations st @ map render (runs (g @ map (decl_of s) xs))"
  using assms
proof (induction xs arbitrary: st g)
  case Nil
  note g = holds_parts[OF Nil.prems(1)]
  have "runs (g @ []) = [g]" using runs_same[OF g(1) g(3), of "[]"] by simp
  then have "runs g = [g]" by simp
  with g(2) holds_flush[OF Nil.prems(1)] show ?case
    by (simp add: final_decls_def)
next
  case (Cons m xs)
  have ne: "\<forall>m \<in> set xs. match_group s m 1 \<noteq> []" using Cons.prems(2) by simp
  note g = holds_parts[OF Cons.prems(1)]
  show ?case
  proof (cases "match_group s m 1 = fst (hd g)")
    case True
    from combine_step_same[OF Cons.prems(1) True]
    have h: "holds (combine_step s st m) (g @ [decl_of s m])"
      and v: "var_declarations (combine_step s st m) = var_declarations st" by blast+
    from Cons.IH[OF h ne] v show ?thesis by simp
  next
    case False
    have t: "match_group s m 1 \<noteq> []" using Cons.prems(2) by simp
    from combine_step_other[OF Cons.prems(1) False t]
    have h: "holds (combine_step s st m) [decl_of s m]"
      and v: "var_declarations (combine_step s st m) = var_declarations st @ [render g]" by blast+
    have nf: "fst (decl_of s m) \<noteq> fst (hd g)" using False by (simp add: decl_of_def)
    have "runs (g @ decl_of s m # map (decl_of s) xs) = g # runs (decl_of s m # map (decl_of s) xs)"
      using runs_same[OF g(1) g(3), of "decl_of s m # map (decl_of s) xs"] nf by simp
    with Cons.IH[OF h ne] v show ?thesis by simp
  qed
qed

lemma combine_fold_decls_init:
  assumes "\<forall>m \<in> set xs. match_group s m 1 \<noteq> []"
  shows "final_decls (foldl (combine_step s)
            \<lparr>new_shader_code = [], var_declarations = [], current_var_type = [],
             current_var_names = [], current_var_sizes = [], cstart = 0\<rparr> xs)
           = map render (runs (map (decl_of s) xs))"
proof (cases xs)
  case Nil
  then show ?thesis by (simp add: final_decls_def)
next
  case (Cons m rest)
  let ?init = "\<lparr>new_shader_code = [], var_declarations = [], current_var_type = [],
             current_var_names = [], current_var_sizes = [], cstart = 0\<rparr>"
  have t: "match_group s m 1 \<noteq> []" using assms Cons by simp
  have neq: "current_var_type ?init \<noteq> match_group s m 1" using t by simp
  note f = combine_step_fields_other[OF neq]
  have h: "holds (combine_step s ?init m) [decl_of s m]"
    unfolding holds_def using f(1,2,3) t by (simp add: decl_of_def)
  have v: "var_declarations (combine_step s ?init m) = []"
    using f(4) by simp
  have ne: "\<forall>m \<in> set rest. match_group s m 1 \<noteq> []" using assms Cons by simp
  from combine_fold_decls[OF h ne] v Cons show ?thesis by simp
qed

text \<open>
  Claim C5 as stated fails: the text between two matches is not dropped. On
  \<^verbatim>\<open>int a; x int b;\<close> the text \<^verbatim>\<open> x \<close> between the two declarations comes first in
  the output, before the merged declaration.
\<close>

theorem combine_variable_declarations_keeps_gap:
  "combine_variable_declarations ''int a; x int b;'' = '' x int a, b;'' @ [newline]"
  by code_simp

text \<open>
  Claim C5, as the code has it. For every text, \<^verbatim>\<open>combine_variable_declarations\<close>
  returns the text before and between the matches, then the merged declarations (one for
  each maximal run of consecutive matches with the same type name, written
  \<^verbatim>\<open>type name1, name2, ...;\<close> with the array sizes appended) joined by newlines, then a
  newline and the text after the last match.
\<close>

theorem combine_variable_declarations_runs:
  "combine_variable_declarations s =
     gaps s 0 (finditer var_decl_pattern s)
       @ join [newline] (map render (runs (map (decl_of s) (finditer var_decl_pattern s))))
       @ [newline] @ drop (last_end 0 (finditer var_decl_pattern s)) s"
proof -
  let ?init = "\<lparr>new_shader_code = [], var_declarations = [], current_var_type = [],
             current_var_names = [], current_var_sizes = [], cstart = 0\<rparr>"
  let ?xs = "finditer var_decl_pattern s"
  let ?st = "foldl (combine_step s) ?init ?xs"
  have ne: "\<forall>m \<in> set ?xs. match_group s m 1 \<noteq> []" using var_decl_type_word by blast
  have d: "final_decls ?st = map render (runs (map (decl_of s) ?xs))"
    by (rule combine_fold_decls_init[OF ne])
  have t: "new_shader_code ?st = gaps s 0 ?xs" "cstart ?st = last_end 0 ?xs"
    using combine_fold_text[where s = s and st = ?init and xs = ?xs] by simp_all
  have "combine_variable_declarations s
        = new_shader_code ?st @ join [newline] (final_decls ?st) @ [newline] @ drop (cstart ?st) s"
    by (simp add: combine_variable_declarations_def Let_def final_decls_def)
  with d t show ?thesis by simp
qed

section \<open>The pipeline and its report\<close>




section \<open>Substitution as a scan\<close>

lemma sub_loop_emit: "sub_loop s repl xs pos = emit s (\<lambda>_. repl) pos xs"
  by (induction xs arbitrary: pos) simp_all

lemma slice_one: "i < length s \<Longrightarrow> slice s i (Suc i) = [s ! i]"
  by (simp add: slice_def take_Suc_conv_app_nth hd_drop_conv_nth take_Suc)

lemma sub_loop_scan:
  assumes char: "\<And>i. i0 \<le> i \<Longrightarrow> i \<le> length s \<Longrightarrow>
      (case ms r s i Map.empty of
         [] \<Rightarrow> ml (drop i s) = None
       | (e, c) # _ \<Rightarrow> i < e \<and> ml (drop i s) = Some (e - i))"
  shows "i0 \<le> i \<Longrightarrow> sub_loop s repl (finditer_from r s i) i = scan ml repl (drop i s)"
  using char
proof (induction r s i rule: finditer_from.induct)
  case (1 r s i)
  note char' = "1.prems"(2)
  note i0 = "1.prems"(1)
  show ?case
  proof (cases "length s < i")
    case True
    then show ?thesis by (subst finditer_from.simps) simp
  next
    case le: False
    then have ile: "i \<le> length s" by simp
    show ?thesis
    proof (cases "ms r s i Map.empty")
      case Nil
      have none: "ml (drop i s) = None" using char'[OF i0 ile] Nil by simp
      have fi: "finditer_from r s i = finditer_from r s (Suc i)"
        using le Nil by (subst finditer_from.simps) simp
      show ?thesis
      proof (cases "i = length s")
        case True
        then have "finditer_from r s (Suc i) = []" by (subst finditer_from.simps) simp
        with fi True show ?thesis by simp
      next
        case False
        with ile have lt: "i < length s" by simp
        have d: "drop i s = s ! i # drop (Suc i) s" using lt by (simp add: Cons_nth_drop_Suc)
        have IH: "sub_loop s repl (finditer_from r s (Suc i)) (Suc i) = scan ml repl (drop (Suc i) s)"
          using "1.IH"(1)[OF le Nil _ char'] i0 by simp
        have "sub_loop s repl (finditer_from r s (Suc i)) i
              = slice s i (Suc i) @ sub_loop s repl (finditer_from r s (Suc i)) (Suc i)"
          unfolding sub_loop_emit
          by (rule emit_shift[OF finditer_from_sorted]) simp
        with IH fi lt none d show ?thesis by (simp add: slice_one)
      qed
    next
      case (Cons x xs)
      obtain e c where x: "x = (e, c)" by (cases x)
      have ch: "i < e" "ml (drop i s) = Some (e - i)"
        using char'[OF i0 ile] Cons x by simp_all
      have "(e, c) \<in> set (ms r s i Map.empty)" using Cons x by simp
      from ms_bounds[OF this ile] have ele: "e \<le> length s" by simp
      have fi: "finditer_from r s i = \<lparr>mstart = i, mend = e, mgroups = c\<rparr> # finditer_from r s e"
        using le Cons x ch(1) by (subst finditer_from.simps) simp
      have IH: "sub_loop s repl (finditer_from r s e) e = scan ml repl (drop e s)"
        using "1.IH"(2)[OF le Cons x[symmetric] _ char'] i0 ch(1) by simp
      have lt: "i < length s" using ch(1) ele by simp
      have d: "drop i s = s ! i # drop (Suc i) s" using lt by (simp add: Cons_nth_drop_Suc)
      have "drop (e - i - 1) (drop (Suc i) s) = drop e s" using ch(1) by simp
      with fi IH d ch(2) show ?thesis by (simp add: slice_def)
    qed
  qed
qed

lemma re_sub_scan:
  assumes "\<And>i. i \<le> length s \<Longrightarrow>
      (case ms r s i Map.empty of
         [] \<Rightarrow> ml (drop i s) = None
       | (e, c) # _ \<Rightarrow> i < e \<and> ml (drop i s) = Some (e - i))"
  shows "re_sub r repl s = scan ml repl s"
  using sub_loop_scan[where ?i0.0 = 0 and i = 0 and s = s and r = r and ml = ml and repl = repl] assms
  by (simp add: re_sub_def finditer_def)

lemma scan_no_match: "\<not> any_match ml t \<Longrightarrow> scan ml repl t = t"
  by (induction t) auto

section \<open>Greedy repetition of a character class\<close>

lemma hd_concat_map:
  "xs \<noteq> [] \<Longrightarrow> f (hd xs) \<noteq> [] \<Longrightarrow>
     concat (map f xs) \<noteq> [] \<and> hd (concat (map f xs)) = hd (f (hd xs))"
  by (cases xs) auto

lemma ms_Star_Cls_unfold:
  "ms (Star (Cls P)) s i c =
     (if i < length s \<and> P (s ! i) then ms (Star (Cls P)) s (Suc i) c @ [(i, c)] else [(i, c)])"
  by (subst ms.simps(5)) auto

lemma ms_Star_Cls_hd:
  "ms (Star (Cls P)) s i c \<noteq> [] \<and>
   hd (ms (Star (Cls P)) s i c) = (i + length (takeWhile P (drop i s)), c)"
proof (induction "length s - i" arbitrary: i rule: less_induct)
  case less
  show ?case
  proof (cases "i < length s \<and> P (s ! i)")
    case True
    then have d: "drop i s = s ! i # drop (Suc i) s" by (simp add: Cons_nth_drop_Suc)
    from True have "length s - Suc i < length s - i" by auto
    from less[OF this]
    have IH: "ms (Star (Cls P)) s (Suc i) c \<noteq> []"
      "hd (ms (Star (Cls P)) s (Suc i) c) = (Suc i + length (takeWhile P (drop (Suc i) s)), c)"
      by simp_all
    from True IH d show ?thesis by (subst (1 2) ms_Star_Cls_unfold) simp
  next
    case False
    have "takeWhile P (drop i s) = []"
    proof (cases "i < length s")
      case True
      with False show ?thesis by (simp add: Cons_nth_drop_Suc[symmetric])
    next
      case False
      then show ?thesis by simp
    qed
    with False show ?thesis by (subst (1 2) ms_Star_Cls_unfold) auto
  qed
qed

lemma ms_Star_Cls_intro:
  "i \<le> j \<Longrightarrow> j \<le> length s \<Longrightarrow> (\<forall>x. i \<le> x \<and> x < j \<longrightarrow> P (s ! x)) \<Longrightarrow>
     (j, c) \<in> set (ms (Star (Cls P)) s i c)"
proof (induction "j - i" arbitrary: i)
  case 0
  then have "i = j" by simp
  then show ?case by (subst ms_Star_Cls_unfold) simp
next
  case (Suc n)
  then have lt: "i < j" by simp
  with Suc.prems have c: "i < length s" "P (s ! i)" by auto
  have "(j, c) \<in> set (ms (Star (Cls P)) s (Suc i) c)"
    using Suc.hyps(1)[of "Suc i"] Suc.hyps(2) Suc.prems lt by simp
  with c show ?case by (subst ms_Star_Cls_unfold) simp
qed

lemma ms_Rep1_Cls:
  "ms (Rep1 (Cls P)) s i c =
     (if i < length s \<and> P (s ! i) then ms (Star (Cls P)) s (Suc i) c else [])"
  by (auto simp: Rep1_def)

lemma concat_map_Eps [simp]: "concat (map (\<lambda>(x, y). ms Eps s x y) xs) = xs"
  by (induction xs) auto

lemma ms_Cat_Eps: "ms (Cat a Eps) s i c = ms a s i c"
  by simp

section \<open>The matches of the lexical patterns\<close>

lemma line_comment_char:
  "case ms line_comment_pattern s i c of
     [] \<Rightarrow> ml_line (drop i s) = None
   | (e, c') # _ \<Rightarrow> i < e \<and> ml_line (drop i s) = Some (e - i)"
proof (cases "Suc i < length s \<and> s ! i = CHR ''/'' \<and> s ! Suc i = CHR ''/''")
  case True
  then have d: "drop i s = CHR ''/'' # CHR ''/'' # drop (Suc (Suc i)) s"
    by (metis Cons_nth_drop_Suc Suc_lessD)
  have m: "ms line_comment_pattern s i c = ms (Star (NoneOf [newline])) s (Suc (Suc i)) c"
    using True by (simp add: line_comment_pattern_def cat_def Str_def Lit_def)
  from ms_Star_Cls_hd[of "\<lambda>c. c \<notin> set [newline]" s "Suc (Suc i)" c]
  obtain rest where "ms (Star (NoneOf [newline])) s (Suc (Suc i)) c
      = (Suc (Suc i) + length (takeWhile (\<lambda>c. c \<notin> set [newline]) (drop (Suc (Suc i)) s)), c) # rest"
    unfolding NoneOf_def by (metis list.collapse)
  with m d show ?thesis by simp
next
  case False
  have m: "ms line_comment_pattern s i c = []"
    using False by (auto simp: line_comment_pattern_def cat_def Str_def Lit_def)
  have "ml_line (drop i s) = None"
  proof (cases "Suc i < length s")
    case True
    then have "drop i s = s ! i # s ! Suc i # drop (Suc (Suc i)) s"
      by (metis Cons_nth_drop_Suc Suc_lessD)
    with False True show ?thesis by auto
  next
    case nl: False
    show ?thesis
    proof (cases "i < length s")
      case True
      with nl have "drop i s = [s ! i]" by (metis Cons_nth_drop_Suc drop_all not_less)
      then show ?thesis by simp
    next
      case False
      then show ?thesis by simp
    qed
  qed
  with m show ?thesis by simp
qed

lemma spaces_char:
  "case ms spaces_pattern s i c of
     [] \<Rightarrow> ml_spaces (drop i s) = None
   | (e, c') # _ \<Rightarrow> i < e \<and> ml_spaces (drop i s) = Some (e - i)"
proof (cases "i < length s \<and> is_space (s ! i)")
  case True
  then have d: "drop i s = s ! i # drop (Suc i) s" by (simp add: Cons_nth_drop_Suc)
  from ms_Star_Cls_hd[of is_space s "Suc i" c]
  obtain rest where "ms (Star (Cls is_space)) s (Suc i) c
      = (Suc i + length (takeWhile is_space (drop (Suc i) s)), c) # rest"
    by (metis list.collapse)
  with True d show ?thesis by (simp add: spaces_pattern_def ms_Rep1_Cls)
next
  case False
  have "ml_spaces (drop i s) = None"
  proof (cases "i < length s")
    case True
    with False show ?thesis by (simp add: Cons_nth_drop_Suc[symmetric])
  next
    case False
    then show ?thesis by simp
  qed
  with False show ?thesis by (auto simp: spaces_pattern_def ms_Rep1_Cls)
qed

lemma space_newline: "is_space newline"
  by (simp add: is_space_def newline_def)

lemma list_all_drop_nth:
  "list_all P (drop i s) = (\<forall>x. i \<le> x \<and> x < length s \<longrightarrow> P (s ! x))"
proof
  assume a: "list_all P (drop i s)"
  show "\<forall>x. i \<le> x \<and> x < length s \<longrightarrow> P (s ! x)"
  proof (intro allI impI)
    fix x assume x: "i \<le> x \<and> x < length s"
    then have "x - i < length (drop i s)" by auto
    with a have "P (drop i s ! (x - i))" by (simp add: list_all_length)
    with x show "P (s ! x)" by auto
  qed
next
  assume a: "\<forall>x. i \<le> x \<and> x < length s \<longrightarrow> P (s ! x)"
  show "list_all P (drop i s)"
    unfolding list_all_length
  proof (intro allI impI)
    fix n assume "n < length (drop i s)"
    then have "i + n < length s" by simp
    with a have "P (s ! (i + n))" by simp
    then show "P (drop i s ! n)" using \<open>i + n < length s\<close> by simp
  qed
qed

lemma trim_tail_unfold:
  "0 < i \<Longrightarrow> ms trim_pattern s i c =
     concat (map (\<lambda>(j, c'). if j = length s \<or> (Suc j = length s \<and> s ! j = newline)
                              then [(j, c')] else [])
                 (ms (Rep1 (Cls is_space)) s i c))"
  by (simp add: trim_pattern_def cat_def case_prod_unfold)

lemma trim_char_tail:
  assumes "0 < i" "i \<le> length s"
  shows "case ms trim_pattern s i c of
           [] \<Rightarrow> ml_trail (drop i s) = None
         | (e, c') # _ \<Rightarrow> i < e \<and> ml_trail (drop i s) = Some (e - i)"
proof (cases "i < length s \<and> list_all is_space (drop i s)")
  case True
  let ?f = "\<lambda>(j, c'). if j = length s \<or> (Suc j = length s \<and> s ! j = newline)
                              then [(j, c')] else []"
  from True have sp: "is_space (s ! i)" by (simp add: list_all_drop_nth)
  from True have "list_all is_space (drop (Suc i) s)" by (simp add: list_all_drop_nth)
  then have tw: "takeWhile is_space (drop (Suc i) s) = drop (Suc i) s"
    by (simp add: list_all_iff)
  have r: "ms (Rep1 (Cls is_space)) s i c = ms (Star (Cls is_space)) s (Suc i) c"
    using True sp by (simp add: ms_Rep1_Cls)
  from True have lt: "i < length s" by blast
  from ms_Star_Cls_hd[of is_space s "Suc i" c] tw lt
  have h: "ms (Star (Cls is_space)) s (Suc i) c \<noteq> []"
    "hd (ms (Star (Cls is_space)) s (Suc i) c) = (length s, c)" by simp_all
  have "?f (hd (ms (Star (Cls is_space)) s (Suc i) c)) = [(length s, c)]"
    using h(2) by simp
  with hd_concat_map[of "ms (Star (Cls is_space)) s (Suc i) c" ?f] h(1)
  have "concat (map ?f (ms (Star (Cls is_space)) s (Suc i) c)) \<noteq> []"
    "hd (concat (map ?f (ms (Star (Cls is_space)) s (Suc i) c))) = (length s, c)" by simp_all
  then have "ms trim_pattern s i c \<noteq> []" "hd (ms trim_pattern s i c) = (length s, c)"
    unfolding trim_tail_unfold[OF assms(1)] r by simp_all
  then obtain rest where "ms trim_pattern s i c = (length s, c) # rest"
    by (cases "ms trim_pattern s i c") simp_all
  moreover have "ml_trail (drop i s) = Some (length s - i)" using True by (simp add: ml_trail_def)
  ultimately show ?thesis using lt by simp
next
  case False
  have none: "ml_trail (drop i s) = None" using False assms(2) by (auto simp: ml_trail_def)
  have "\<not> (j = length s \<or> (Suc j = length s \<and> s ! j = newline))"
    if m: "(j, c') \<in> set (ms (Rep1 (Cls is_space)) s i c)" for j c'
  proof
    assume e: "j = length s \<or> (Suc j = length s \<and> s ! j = newline)"
    from m have i: "i < length s" "is_space (s ! i)"
      and m': "(j, c') \<in> set (ms (Star (Cls is_space)) s (Suc i) c)"
      by (auto simp: ms_Rep1_Cls split: if_splits)
    from ms_Star_Cls[OF m'] have run: "\<forall>x. Suc i \<le> x \<and> x < j \<longrightarrow> is_space (s ! x)" by blast
    have "is_space (s ! x)" if x: "i \<le> x \<and> x < length s" for x
    proof (cases "x = i")
      case True
      with i show ?thesis by simp
    next
      case ne: False
      show ?thesis
      proof (cases "x < j")
        case True
        with run x ne show ?thesis by (simp add: Suc_le_eq)
      next
        case False
        with e x have "x = j" "s ! j = newline" by auto
        then show ?thesis using space_newline by simp
      qed
    qed
    then have "list_all is_space (drop i s)" by (simp add: list_all_drop_nth)
    with i False show False by simp
  qed
  then have "\<forall>x \<in> set (ms (Rep1 (Cls is_space)) s i c).
      (case x of (j, c') \<Rightarrow> if j = length s \<or> (Suc j = length s \<and> s ! j = newline)
                              then [(j, c')] else []) = []"
    by fastforce
  then have "ms trim_pattern s i c = []"
    unfolding trim_tail_unfold[OF assms(1)] by simp
  with none show ?thesis by simp
qed

lemma trim_char_head:
  "(s \<noteq> [] \<and> is_space (hd s) \<longrightarrow>
      (\<exists>rest. ms trim_pattern s 0 c = (length (takeWhile is_space s), c) # rest))
   \<and> (\<not> (s \<noteq> [] \<and> is_space (hd s)) \<longrightarrow> ms trim_pattern s 0 c = [])"
proof (intro conjI impI)
  assume a: "s \<noteq> [] \<and> is_space (hd s)"
  then obtain x xs where s: "s = x # xs" and x: "is_space x" by (cases s) auto
  have "ms (Rep1 (Cls is_space)) s 0 c = ms (Star (Cls is_space)) s (Suc 0) c"
    using s x by (simp add: ms_Rep1_Cls)
  moreover have "ms (Star (Cls is_space)) s (Suc 0) c \<noteq> []"
    "hd (ms (Star (Cls is_space)) s (Suc 0) c) = (length (takeWhile is_space s), c)"
    using ms_Star_Cls_hd[of is_space s "Suc 0" c] s x by simp_all
  then obtain rest where "ms (Star (Cls is_space)) s (Suc 0) c = (length (takeWhile is_space s), c) # rest"
    by (cases "ms (Star (Cls is_space)) s (Suc 0) c") simp_all
  ultimately show "\<exists>rest. ms trim_pattern s 0 c = (length (takeWhile is_space s), c) # rest"
    by (simp add: trim_pattern_def cat_def)
next
  assume a: "\<not> (s \<noteq> [] \<and> is_space (hd s))"
  then have "ms (Rep1 (Cls is_space)) s 0 c = []"
    by (cases s) (auto simp: ms_Rep1_Cls)
  then show "ms trim_pattern s 0 c = []"
    by (simp add: trim_pattern_def cat_def)
qed

lemma re_sub_trim:
  "re_sub trim_pattern [] s = scan ml_trail [] (dropWhile is_space s)"
proof -
  have tail: "sub_loop s [] (finditer_from trim_pattern s i) i = scan ml_trail [] (drop i s)"
    if "1 \<le> i" for i
  proof (rule sub_loop_scan[where ?i0.0 = 1])
    show "1 \<le> i" by (rule that)
    show "case ms trim_pattern s j Map.empty of
         [] \<Rightarrow> ml_trail (drop j s) = None
       | (e, c) # _ \<Rightarrow> j < e \<and> ml_trail (drop j s) = Some (e - j)"
      if "1 \<le> j" "j \<le> length s" for j
      using trim_char_tail[of j s Map.empty] that by simp
  qed
  show ?thesis
  proof (cases "s \<noteq> [] \<and> is_space (hd s)")
    case True
    let ?e = "length (takeWhile is_space s)"
    from trim_char_head[of s Map.empty] True
    obtain rest where m: "ms trim_pattern s 0 Map.empty = (?e, Map.empty) # rest" by blast
    from True have e: "0 < ?e" by (cases s) auto
    have "finditer_from trim_pattern s 0
          = \<lparr>mstart = 0, mend = ?e, mgroups = Map.empty\<rparr> # finditer_from trim_pattern s ?e"
      using m e by (subst finditer_from.simps) simp
    then have "re_sub trim_pattern [] s = sub_loop s [] (finditer_from trim_pattern s ?e) ?e"
      by (simp add: re_sub_def finditer_def slice_def)
    also have "\<dots> = scan ml_trail [] (drop ?e s)" using tail[of ?e] e by simp
    also have "drop ?e s = dropWhile is_space s" by (simp add: dropWhile_eq_drop)
    finally show ?thesis .
  next
    case False
    then have dw: "dropWhile is_space s = s" by (cases s) auto
    from trim_char_head[of s Map.empty] False
    have m: "ms trim_pattern s 0 Map.empty = []" by blast
    have fi: "finditer_from trim_pattern s 0 = finditer_from trim_pattern s (Suc 0)"
      using m by (subst finditer_from.simps) simp
    show ?thesis
    proof (cases s)
      case Nil
      then have "finditer_from trim_pattern s (Suc 0) = []" by (subst finditer_from.simps) simp
      with fi Nil show ?thesis by (simp add: re_sub_def finditer_def)
    next
      case (Cons x xs)
      with False have x: "\<not> is_space x" by simp
      have "sub_loop s [] (finditer_from trim_pattern s (Suc 0)) 0
            = slice s 0 (Suc 0) @ sub_loop s [] (finditer_from trim_pattern s (Suc 0)) (Suc 0)"
        unfolding sub_loop_emit by (rule emit_shift[OF finditer_from_sorted]) simp
      also have "\<dots> = x # scan ml_trail [] xs"
        using tail[of "Suc 0"] Cons by (simp add: slice_def)
      also have "\<dots> = scan ml_trail [] s" using Cons x by (simp add: ml_trail_def)
      finally show ?thesis using fi dw by (simp add: re_sub_def finditer_def)
    qed
  qed
qed

section \<open>The matches of the block comment pattern\<close>

lemma find_close_pos:
  "(find_close (drop k s) = Some n)
     = (2 \<le> n \<and> closes_at s (k + n - 2) \<and> (\<forall>j. k \<le> j \<and> j < k + n - 2 \<longrightarrow> \<not> closes_at s j))"
proof (induction "length s - k" arbitrary: k n rule: less_induct)
  case less
  show ?case
  proof (cases "Suc k < length s")
    case False
    then have "find_close (drop k s) = None"
    proof (cases "k < length s")
      case True
      with False have "drop k s = [s ! k]" by (metis Cons_nth_drop_Suc drop_all not_less)
      then show ?thesis by simp
    next
      case False
      then show ?thesis by simp
    qed
    moreover have "\<not> closes_at s (k + n - 2)" if "2 \<le> n"
    proof -
      from False that have "\<not> Suc (k + n - 2) < length s" by arith
      then show ?thesis unfolding closes_at_def by blast
    qed
    ultimately show ?thesis by auto
  next
    case True
    then have d: "drop k s = s ! k # s ! Suc k # drop (Suc (Suc k)) s"
      by (metis Cons_nth_drop_Suc Suc_lessD)
    then have d1: "drop (Suc k) s = s ! Suc k # drop (Suc (Suc k)) s"
      using True by (simp add: Cons_nth_drop_Suc)
    show ?thesis
    proof (cases "closes_at s k")
      case c: True
      then have f: "find_close (drop k s) = Some 2" using d by (simp add: closes_at_def)
      show ?thesis
      proof (cases "n = 2")
        case True
        with f c show ?thesis by auto
      next
        case False
        have "\<not> (\<forall>j. k \<le> j \<and> j < k + n - 2 \<longrightarrow> \<not> closes_at s j)" if "2 \<le> n"
        proof -
          from that False have "k \<le> k \<and> k < k + n - 2" by simp
          with c show ?thesis by blast
        qed
        with f False show ?thesis by auto
      qed
    next
      case nc: False
      have lt: "length s - Suc k < length s - k" using True by simp
      have f: "find_close (drop k s) = map_option Suc (find_close (drop (Suc k) s))"
        using d d1 nc True by (auto simp: closes_at_def)
      show ?thesis
      proof (cases n)
        case 0
        with f show ?thesis by auto
      next
        case (Suc m)
        have "(find_close (drop k s) = Some n) = (find_close (drop (Suc k) s) = Some m)"
          using f Suc by auto
        also have "\<dots> = (2 \<le> m \<and> closes_at s (Suc k + m - 2)
                       \<and> (\<forall>j. Suc k \<le> j \<and> j < Suc k + m - 2 \<longrightarrow> \<not> closes_at s j))"
          by (rule less[OF lt])
        also have "\<dots> = (2 \<le> n \<and> closes_at s (k + n - 2)
                       \<and> (\<forall>j. k \<le> j \<and> j < k + n - 2 \<longrightarrow> \<not> closes_at s j))"
        proof (cases "2 \<le> m")
          case True
          have "(\<forall>j. Suc k \<le> j \<and> j < Suc k + m - 2 \<longrightarrow> \<not> closes_at s j)
                = (\<forall>j. k \<le> j \<and> j < k + n - 2 \<longrightarrow> \<not> closes_at s j)"
            using nc Suc True by (metis Suc_leI add_Suc add_Suc_right le_neq_implies_less order_less_imp_le Suc_le_lessD)
          with True Suc show ?thesis by simp
        next
          case False
          then have "m = 0 \<or> m = 1" by auto
          with Suc nc False show ?thesis by auto
        qed
        finally show ?thesis .
      qed
    qed
  qed
qed

lemma ms_Cat_intro:
  "(k, c'') \<in> set (ms a s i c) \<Longrightarrow> (j, c') \<in> set (ms b s k c'') \<Longrightarrow>
     (j, c') \<in> set (ms (Cat a b) s i c)"
  by force

lemma ms_Star_self: "(i, c) \<in> set (ms (Star a) s i c)"
  by (subst ms.simps(5)) simp

lemma ms_Star_intro:
  "(k, c'') \<in> set (ms a s i c) \<Longrightarrow> i < k \<Longrightarrow> k \<le> length s \<Longrightarrow>
     (j, c') \<in> set (ms (Star a) s k c'') \<Longrightarrow> (j, c') \<in> set (ms (Star a) s i c)"
  by (subst ms.simps(5)) force

lemma not_star_sound:
  "(k1, c1) \<in> set (ms (Star (NoneOf ''*'')) s a c) \<Longrightarrow>
     c1 = c \<and> a \<le> k1 \<and> (\<forall>x. a \<le> x \<and> x < k1 \<longrightarrow> s ! x \<noteq> CHR ''*'')"
  using ms_Star_Cls[of k1 c1 "\<lambda>c. c \<notin> set ''*''" s a c] by (simp add: NoneOf_def)

lemma stars_sound:
  assumes "(k2, c2) \<in> set (ms (Rep1 (Lit CHR ''*'')) s k1 c)"
  shows "c2 = c \<and> k1 < k2 \<and> k2 \<le> length s \<and> (\<forall>x. k1 \<le> x \<and> x < k2 \<longrightarrow> s ! x = CHR ''*'')"
proof -
  from assms have i: "k1 < length s" "s ! k1 = CHR ''*''"
    and m: "(k2, c2) \<in> set (ms (Star (Cls (\<lambda>c. c = CHR ''*''))) s (Suc k1) c)"
    by (auto simp: Lit_def ms_Rep1_Cls split: if_splits)
  from ms_Star_Cls[OF m] have r: "c2 = c" "Suc k1 \<le> k2"
    "\<forall>x. Suc k1 \<le> x \<and> x < k2 \<longrightarrow> s ! x = CHR ''*''" by auto
  from ms_bounds[OF m] i have "k2 \<le> length s" by simp
  moreover have "s ! x = CHR ''*''" if "k1 \<le> x \<and> x < k2" for x
    using that r(3) i(2) by (cases "x = k1") auto
  ultimately show ?thesis using r by auto
qed

lemma run_sound:
  assumes "(k1, c1) \<in> set (ms (Star (NoneOf ''*'')) s a c)"
    and "(k2, c2) \<in> set (ms (Rep1 (Lit CHR ''*'')) s k1 c1)"
  shows "c2 = c \<and> star_run s a k1 k2"
  using not_star_sound[OF assms(1)] stars_sound[OF assms(2)] by (simp add: star_run_def)

lemma run_no_close:
  assumes "star_run s a k1 k2"
  shows "no_close s a k2 \<and> s ! (k2 - 1) = CHR ''*'' \<and> a < k2"
proof -
  from assms have r: "a \<le> k1" "k1 < k2" "\<forall>x. a \<le> x \<and> x < k1 \<longrightarrow> s ! x \<noteq> CHR ''*''"
    "\<forall>x. k1 \<le> x \<and> x < k2 \<longrightarrow> s ! x = CHR ''*''" by (simp_all add: star_run_def)
  have "\<not> closes_at s j" if j: "a \<le> j \<and> Suc j < k2" for j
  proof
    assume c: "closes_at s j"
    then have "s ! j = CHR ''*''" by (simp add: closes_at_def)
    with r(3) j have "k1 \<le> j" by (meson not_less)
    with r(4) j have "s ! Suc j = CHR ''*''" by simp
    with c show False by (simp add: closes_at_def)
  qed
  moreover have "s ! (k2 - 1) = CHR ''*''" using r(2,4) by simp
  ultimately show ?thesis using r(1,2) by (simp add: no_close_def)
qed

lemma group_sound:
  assumes "(p', c') \<in> set (ms block_group s p c)"
  shows "c' = c \<and> p < length s \<and> s ! p \<noteq> CHR ''/'' \<and> s ! p \<noteq> CHR ''*''
         \<and> (\<exists>k1. star_run s (Suc p) k1 p')"
proof -
  have g: "block_group = Cat (NoneOf ''/*'') (Cat (Star (NoneOf ''*'')) (Cat (Rep1 (Lit CHR ''*'')) Eps))"
    by (simp add: block_group_def cat_def)
  from assms obtain q cq where q: "(q, cq) \<in> set (ms (NoneOf ''/*'') s p c)"
    and r: "(p', c') \<in> set (ms (Cat (Star (NoneOf ''*'')) (Cat (Rep1 (Lit CHR ''*'')) Eps)) s q cq)"
    unfolding g using ms_Cat_set by blast
  from q have q': "q = Suc p" "cq = c" "p < length s" "s ! p \<noteq> CHR ''/''" "s ! p \<noteq> CHR ''*''"
    by (auto simp: NoneOf_def split: if_splits)
  from ms_Cat_set[OF r] obtain k1 c1 where k1: "(k1, c1) \<in> set (ms (Star (NoneOf ''*'')) s q cq)"
    and k2: "(p', c') \<in> set (ms (Cat (Rep1 (Lit CHR ''*'')) Eps) s k1 c1)" by blast
  from k2 have "(p', c') \<in> set (ms (Rep1 (Lit CHR ''*'')) s k1 c1)" by (simp only: ms_Cat_Eps)
  from run_sound[OF k1 this] q' show ?thesis by auto
qed

lemma group_extends:
  assumes nc: "no_close s k p" and p: "0 < p" "s ! (p - 1) = CHR ''*''"
    and sp: "s ! p \<noteq> CHR ''/''" "s ! p \<noteq> CHR ''*''"
    and run: "star_run s (Suc p) k1 p'"
  shows "no_close s k p' \<and> s ! (p' - 1) = CHR ''*'' \<and> p < p'"
proof -
  from run_no_close[OF run] have r: "no_close s (Suc p) p'" "s ! (p' - 1) = CHR ''*''" "Suc p < p'"
    by simp_all
  have "\<not> closes_at s j" if j: "k \<le> j \<and> Suc j < p'" for j
  proof (cases "Suc j < p")
    case True
    with nc j show ?thesis by (simp add: no_close_def)
  next
    case False
    show ?thesis
    proof (cases "Suc p \<le> j")
      case True
      with r(1) j show ?thesis by (simp add: no_close_def)
    next
      case nle: False
      with False have "j = p \<or> Suc j = p" by arith
      then show ?thesis using sp by (auto simp: closes_at_def)
    qed
  qed
  with r show ?thesis by (simp add: no_close_def)
qed

lemma star_group_sound:
  assumes "(k3, c3) \<in> set (ms (Star block_group) s p c)"
    and "no_close s k p" "0 < p" "s ! (p - 1) = CHR ''*''"
  shows "c3 = c \<and> p \<le> k3 \<and> s ! (k3 - 1) = CHR ''*'' \<and> no_close s k k3"
  using assms
proof (induction "length s - p" arbitrary: p c rule: less_induct)
  case less
  from ms_Star_set[OF less.prems(1)] show ?case
  proof
    assume "(k3, c3) = (p, c)"
    with less.prems show ?thesis by simp
  next
    assume "\<exists>q cq. (q, cq) \<in> set (ms block_group s p c) \<and> p < q \<and> q \<le> length s
               \<and> (k3, c3) \<in> set (ms (Star block_group) s q cq)"
    then obtain q cq where q: "(q, cq) \<in> set (ms block_group s p c)" and lt: "p < q" "q \<le> length s"
      and m: "(k3, c3) \<in> set (ms (Star block_group) s q cq)" by blast
    from group_sound[OF q] obtain k1 where g: "cq = c" "p < length s" "s ! p \<noteq> CHR ''/''"
      "s ! p \<noteq> CHR ''*''" "star_run s (Suc p) k1 q" by blast
    from group_extends[OF less.prems(2,3,4) g(3,4,5)]
    have e: "no_close s k q" "s ! (q - 1) = CHR ''*''" by simp_all
    have d: "length s - q < length s - p" using lt g(2) by simp
    from less.hyps[OF d m e(1) _ e(2)] lt
    have "c3 = cq \<and> q \<le> k3 \<and> s ! (k3 - 1) = CHR ''*'' \<and> no_close s k k3" by simp
    with g(1) lt show ?thesis by simp
  qed
qed

lemma block_tail_sound:
  assumes "(e, c') \<in> set (ms block_tail s k c)"
  shows "c' = c \<and> k + 2 \<le> e \<and> closes_at s (e - 2)
         \<and> (\<forall>j. k \<le> j \<and> j < e - 2 \<longrightarrow> \<not> closes_at s j)"
proof -
  have t: "block_tail = Cat (Star (NoneOf ''*'')) (Cat (Rep1 (Lit CHR ''*''))
             (Cat (Star block_group) (Cat (Lit CHR ''/'') Eps)))"
    by (simp add: block_tail_def cat_def)
  from assms obtain k1 c1 where k1: "(k1, c1) \<in> set (ms (Star (NoneOf ''*'')) s k c)"
    and r1: "(e, c') \<in> set (ms (Cat (Rep1 (Lit CHR ''*''))
             (Cat (Star block_group) (Cat (Lit CHR ''/'') Eps))) s k1 c1)"
    unfolding t using ms_Cat_set by blast
  from ms_Cat_set[OF r1] obtain k2 c2 where k2: "(k2, c2) \<in> set (ms (Rep1 (Lit CHR ''*'')) s k1 c1)"
    and r2: "(e, c') \<in> set (ms (Cat (Star block_group) (Cat (Lit CHR ''/'') Eps)) s k2 c2)" by blast
  from ms_Cat_set[OF r2] obtain k3 c3 where k3: "(k3, c3) \<in> set (ms (Star block_group) s k2 c2)"
    and r3: "(e, c') \<in> set (ms (Cat (Lit CHR ''/'') Eps) s k3 c3)" by blast
  from run_sound[OF k1 k2] have c2: "c2 = c" and run: "star_run s k k1 k2" by simp_all
  from run_no_close[OF run] have nc: "no_close s k k2" "s ! (k2 - 1) = CHR ''*''" "k < k2" by simp_all
  from nc(3) have "0 < k2" by simp
  from star_group_sound[OF k3 nc(1) this nc(2)]
  have g: "c3 = c2" "k2 \<le> k3" "s ! (k3 - 1) = CHR ''*''" "no_close s k k3" by simp_all
  from r3 have l: "e = Suc k3" "c' = c3" "k3 < length s" "s ! k3 = CHR ''/''"
    by (auto simp: Lit_def split: if_splits)
  have "closes_at s (k3 - 1)" using g(2,3) nc(3) l(3,4) by (simp add: closes_at_def)
  moreover have "\<not> closes_at s j" if "k \<le> j \<and> j < k3 - 1" for j
  proof -
    from that have "k \<le> j \<and> Suc j < k3" by arith
    with g(4) show ?thesis unfolding no_close_def by blast
  qed
  ultimately show ?thesis using l g c2 nc(3) by simp
qed

lemma star_run_exists:
  assumes "a \<le> j" "closes_at s j"
  shows "\<exists>k1 k2. star_run s a k1 k2 \<and> k2 < length s \<and> s ! k2 \<noteq> CHR ''*'' \<and> k2 \<le> Suc j"
proof -
  from assms(2) have j: "Suc j < length s" "s ! j = CHR ''*''" "s ! Suc j = CHR ''/''"
    by (simp_all add: closes_at_def)
  define k1 where "k1 = (LEAST x. a \<le> x \<and> s ! x = CHR ''*'')"
  have p1: "a \<le> j \<and> s ! j = CHR ''*''" using assms(1) j by simp
  have k1: "a \<le> k1 \<and> s ! k1 = CHR ''*''" unfolding k1_def by (rule LeastI[of _ j]) (rule p1)
  have k1j: "k1 \<le> j" unfolding k1_def by (rule Least_le) (rule p1)
  have before: "s ! x \<noteq> CHR ''*''" if "a \<le> x \<and> x < k1" for x
    using not_less_Least[of x "\<lambda>x. a \<le> x \<and> s ! x = CHR ''*''"] that unfolding k1_def by blast
  define k2 where "k2 = (LEAST x. k1 < x \<and> s ! x \<noteq> CHR ''*'')"
  have p2: "k1 < Suc j \<and> s ! Suc j \<noteq> CHR ''*''" using k1j j by simp
  have k2: "k1 < k2 \<and> s ! k2 \<noteq> CHR ''*''" unfolding k2_def by (rule LeastI[of _ "Suc j"]) (rule p2)
  have k2j: "k2 \<le> Suc j" unfolding k2_def by (rule Least_le) (rule p2)
  have inside: "s ! x = CHR ''*''" if x: "k1 \<le> x \<and> x < k2" for x
  proof (cases "x = k1")
    case True
    with k1 show ?thesis by simp
  next
    case False
    with x have "k1 < x" by simp
    with not_less_Least[of x "\<lambda>x. k1 < x \<and> s ! x \<noteq> CHR ''*''"] x show ?thesis
      unfolding k2_def by blast
  qed
  have "k2 < length s" using k2j j(1) by simp
  then have "star_run s a k1 k2" using k1 k2 before inside by (simp add: star_run_def)
  with k2 k2j \<open>k2 < length s\<close> show ?thesis by blast
qed

lemma run_intro:
  assumes "star_run s a k1 k2"
  shows "(k1, c) \<in> set (ms (Star (NoneOf ''*'')) s a c)"
    and "(k2, c) \<in> set (ms (Rep1 (Lit CHR ''*'')) s k1 c)"
proof -
  from assms have r: "a \<le> k1" "k1 < k2" "k2 \<le> length s"
    "\<forall>x. a \<le> x \<and> x < k1 \<longrightarrow> s ! x \<noteq> CHR ''*''"
    "\<forall>x. k1 \<le> x \<and> x < k2 \<longrightarrow> s ! x = CHR ''*''" by (simp_all add: star_run_def)
  have "k1 \<le> length s" using r(2,3) by simp
  from ms_Star_Cls_intro[OF r(1) this, of "\<lambda>c. c \<notin> set ''*''" c] r(4)
  show "(k1, c) \<in> set (ms (Star (NoneOf ''*'')) s a c)" by (simp add: NoneOf_def)
  have 1: "k1 < length s" "s ! k1 = CHR ''*''" using r(2,3,5) by simp_all
  have "Suc k1 \<le> k2" using r(2) by simp
  from ms_Star_Cls_intro[OF this r(3), of "\<lambda>c. c = CHR ''*''" c] r(5)
  have "(k2, c) \<in> set (ms (Star (Cls (\<lambda>c. c = CHR ''*''))) s (Suc k1) c)" by simp
  with 1 show "(k2, c) \<in> set (ms (Rep1 (Lit CHR ''*'')) s k1 c)"
    by (simp add: Lit_def ms_Rep1_Cls)
qed

lemma group_intro:
  assumes "p < length s" "s ! p \<noteq> CHR ''/''" "s ! p \<noteq> CHR ''*''" "star_run s (Suc p) k1 k2"
  shows "(k2, c) \<in> set (ms block_group s p c)"
proof -
  have g: "block_group = Cat (NoneOf ''/*'') (Cat (Star (NoneOf ''*'')) (Cat (Rep1 (Lit CHR ''*'')) Eps))"
    by (simp add: block_group_def cat_def)
  have a: "(Suc p, c) \<in> set (ms (NoneOf ''/*'') s p c)" using assms(1,2,3) by (simp add: NoneOf_def)
  note r = run_intro[OF assms(4), of c]
  have "(k2, c) \<in> set (ms (Cat (Rep1 (Lit CHR ''*'')) Eps) s k1 c)" using r(2) by (simp only: ms_Cat_Eps)
  from ms_Cat_intro[OF r(1) this] have "(k2, c) \<in> set (ms (Cat (Star (NoneOf ''*''))
      (Cat (Rep1 (Lit CHR ''*'')) Eps)) s (Suc p) c)" .
  from ms_Cat_intro[OF a this] show ?thesis unfolding g .
qed

lemma star_group_complete:
  assumes "0 < p" "s ! (p - 1) = CHR ''*''" "p < length s" "s ! p \<noteq> CHR ''*''"
    "p - 1 \<le> j" "closes_at s j"
  shows "\<exists>k3. (k3, c) \<in> set (ms (Star block_group) s p c) \<and> k3 < length s \<and> s ! k3 = CHR ''/''"
  using assms
proof (induction "length s - p" arbitrary: p rule: less_induct)
  case less
  show ?case
  proof (cases "s ! p = CHR ''/''")
    case True
    with less.prems(3) ms_Star_self[of p c block_group s] show ?thesis by blast
  next
    case False
    from less.prems(6) have j: "Suc j < length s" "s ! j = CHR ''*''" "s ! Suc j = CHR ''/''"
      by (simp_all add: closes_at_def)
    have "j \<noteq> p" using j(2) less.prems(4) by auto
    moreover have "Suc j \<noteq> p" using j(3) False by auto
    ultimately have "Suc p \<le> j" using less.prems(5) by arith
    from star_run_exists[OF this less.prems(6)] obtain k1 k2 where
      run: "star_run s (Suc p) k1 k2" and k2: "k2 < length s" "s ! k2 \<noteq> CHR ''*''" "k2 \<le> Suc j"
      by blast
    from run_no_close[OF run] have e: "s ! (k2 - 1) = CHR ''*''" "Suc p < k2" by simp_all
    have g: "(k2, c) \<in> set (ms block_group s p c)"
      by (rule group_intro[OF less.prems(3) False less.prems(4) run])
    have d: "length s - k2 < length s - p" using e(2) k2(1) by simp
    have "0 < k2" "k2 - 1 \<le> j" using e(2) k2(3) by simp_all
    from less.hyps[OF d this(1) e(1) k2(1,2) this(2) less.prems(6)]
    obtain k3 where k3: "(k3, c) \<in> set (ms (Star block_group) s k2 c)" "k3 < length s"
      "s ! k3 = CHR ''/''" by blast
    have "p < k2" "k2 \<le> length s" using e(2) k2(1) by simp_all
    from ms_Star_intro[OF g this k3(1)] k3(2,3) show ?thesis by blast
  qed
qed

lemma block_tail_complete:
  assumes "k \<le> j" "closes_at s j"
  shows "ms block_tail s k c \<noteq> []"
proof -
  have t: "block_tail = Cat (Star (NoneOf ''*'')) (Cat (Rep1 (Lit CHR ''*''))
             (Cat (Star block_group) (Cat (Lit CHR ''/'') Eps)))"
    by (simp add: block_tail_def cat_def)
  from star_run_exists[OF assms] obtain k1 k2 where
    run: "star_run s k k1 k2" and k2: "k2 < length s" "s ! k2 \<noteq> CHR ''*''" "k2 \<le> Suc j"
    by blast
  from run_no_close[OF run] have e: "s ! (k2 - 1) = CHR ''*''" "k < k2" by simp_all
  have "0 < k2" "k2 - 1 \<le> j" using e(2) k2(3) by simp_all
  from star_group_complete[OF this(1) e(1) k2(1,2) this(2) assms(2), of c]
  obtain k3 where k3: "(k3, c) \<in> set (ms (Star block_group) s k2 c)" "k3 < length s"
    "s ! k3 = CHR ''/''" by blast
  note r = run_intro[OF run, of c]
  have "(Suc k3, c) \<in> set (ms (Cat (Lit CHR ''/'') Eps) s k3 c)"
    using k3(2,3) by (simp add: Lit_def)
  from ms_Cat_intro[OF k3(1) this]
  have "(Suc k3, c) \<in> set (ms (Cat (Star block_group) (Cat (Lit CHR ''/'') Eps)) s k2 c)" .
  from ms_Cat_intro[OF r(2) this]
  have "(Suc k3, c) \<in> set (ms (Cat (Rep1 (Lit CHR ''*''))
      (Cat (Star block_group) (Cat (Lit CHR ''/'') Eps))) s k1 c)" .
  from ms_Cat_intro[OF r(1) this]
  have "(Suc k3, c) \<in> set (ms block_tail s k c)" unfolding t .
  then show ?thesis by auto
qed

lemma block_unfold:
  "ms block_comment_pattern s i c =
     (if Suc i < length s \<and> s ! i = CHR ''/'' \<and> s ! Suc i = CHR ''*''
      then ms block_tail s (Suc (Suc i)) c else [])"
proof -
  have p: "block_comment_pattern = Cat (Cat (Lit CHR ''/'') (Cat (Lit CHR ''*'') Eps)) block_tail"
    by (simp add: block_comment_pattern_def block_tail_def block_group_def cat_def Str_def)
  show ?thesis unfolding p by (auto simp: Lit_def)
qed

lemma block_char:
  "case ms block_comment_pattern s i c of
     [] \<Rightarrow> ml_block (drop i s) = None
   | (e, c') # _ \<Rightarrow> i < e \<and> ml_block (drop i s) = Some (e - i)"
proof (cases "Suc i < length s \<and> s ! i = CHR ''/'' \<and> s ! Suc i = CHR ''*''")
  case True
  then have d: "drop i s = CHR ''/'' # CHR ''*'' # drop (Suc (Suc i)) s"
    by (metis Cons_nth_drop_Suc Suc_lessD)
  have m: "ms block_comment_pattern s i c = ms block_tail s (Suc (Suc i)) c"
    using True by (simp add: block_unfold)
  show ?thesis
  proof (cases "ms block_tail s (Suc (Suc i)) c")
    case Nil
    have "find_close (drop (Suc (Suc i)) s) = None"
    proof (rule ccontr)
      assume "find_close (drop (Suc (Suc i)) s) \<noteq> None"
      then obtain n where "find_close (drop (Suc (Suc i)) s) = Some n" by auto
      then have "2 \<le> n" "closes_at s (Suc (Suc i) + n - 2)" by (simp_all add: find_close_pos)
      moreover from this(1) have "Suc (Suc i) \<le> Suc (Suc i) + n - 2" by simp
      ultimately have "ms block_tail s (Suc (Suc i)) c \<noteq> []" using block_tail_complete by blast
      with Nil show False by simp
    qed
    with Nil m d show ?thesis by simp
  next
    case (Cons x xs)
    obtain e c' where x: "x = (e, c')" by (cases x)
    with Cons have "(e, c') \<in> set (ms block_tail s (Suc (Suc i)) c)" by simp
    from block_tail_sound[OF this] have b: "Suc (Suc i) + 2 \<le> e" "closes_at s (e - 2)"
      "\<forall>j. Suc (Suc i) \<le> j \<and> j < e - 2 \<longrightarrow> \<not> closes_at s j" by simp_all
    have "find_close (drop (Suc (Suc i)) s) = Some (e - Suc (Suc i))"
      unfolding find_close_pos using b by simp
    with Cons x m d b(1) show ?thesis by simp
  qed
next
  case False
  have m: "ms block_comment_pattern s i c = []" using False by (auto simp: block_unfold)
  have "ml_block (drop i s) = None"
  proof (cases "Suc i < length s")
    case True
    then have "drop i s = s ! i # s ! Suc i # drop (Suc (Suc i)) s"
      by (metis Cons_nth_drop_Suc Suc_lessD)
    with False True show ?thesis by auto
  next
    case nl: False
    show ?thesis
    proof (cases "i < length s")
      case True
      with nl have "drop i s = [s ! i]" by (metis Cons_nth_drop_Suc drop_all not_less)
      then show ?thesis by simp
    next
      case False
      then show ?thesis by simp
    qed
  qed
  with m show ?thesis by simp
qed

section \<open>The lexical stages as scans\<close>

lemma remove_comments_scan:
  "remove_comments s = scan ml_block [] (scan ml_line [] s)"
proof -
  have 1: "re_sub line_comment_pattern [] s = scan ml_line [] s" for s
    by (rule re_sub_scan) (rule line_comment_char)
  have 2: "re_sub block_comment_pattern [] s = scan ml_block [] s" for s
    by (rule re_sub_scan) (rule block_char)
  show ?thesis by (simp add: remove_comments_def 1 2)
qed

lemma remove_whitespace_scan:
  "remove_whitespace s = scan ml_spaces '' '' (scan ml_trail [] (dropWhile is_space s))"
proof -
  have "re_sub spaces_pattern '' '' s = scan ml_spaces '' '' s" for s
    by (rule re_sub_scan) (rule spaces_char)
  then show ?thesis by (simp add: remove_whitespace_def re_sub_trim)
qed

section \<open>Texts without a match\<close>

lemma any_match_drop: "\<not> any_match ml t \<Longrightarrow> \<not> any_match ml (drop n t)"
proof (induction t arbitrary: n)
  case Nil
  then show ?case by simp
next
  case (Cons c cs)
  then show ?case by (cases n) auto
qed

lemma any_match_dropWhile: "\<not> any_match ml t \<Longrightarrow> \<not> any_match ml (dropWhile P t)"
  using any_match_drop[of ml t "length (takeWhile P t)"] by (simp add: dropWhile_eq_drop)

lemma ml_line_Some: "(ml_line (c # t) \<noteq> None) = (c = CHR ''/'' \<and> t \<noteq> [] \<and> hd t = CHR ''/'')"
  by (cases t) auto

lemma ml_block_Some:
  "(ml_block (c # t) \<noteq> None)
     = (c = CHR ''/'' \<and> t \<noteq> [] \<and> hd t = CHR ''*'' \<and> find_close (tl t) \<noteq> None)"
  by (cases t) auto

lemma find_close_Cons: "find_close t \<noteq> None \<Longrightarrow> find_close (c # t) \<noteq> None"
  by (cases t) auto

lemma find_close_drop: "find_close (drop n t) \<noteq> None \<Longrightarrow> find_close t \<noteq> None"
proof (induction t arbitrary: n)
  case Nil
  then show ?case by simp
next
  case (Cons c cs)
  show ?case
  proof (cases n)
    case 0
    with Cons.prems show ?thesis by simp
  next
    case (Suc m)
    with Cons have "find_close cs \<noteq> None" by simp
    then show ?thesis by (rule find_close_Cons)
  qed
qed

lemma find_close_append: "find_close t \<noteq> None \<Longrightarrow> find_close (t @ w) \<noteq> None"
  by (induction t rule: find_close.induct) auto

lemma find_close_cases:
  "find_close (a # t) \<noteq> None \<Longrightarrow>
     (a = CHR ''*'' \<and> t \<noteq> [] \<and> hd t = CHR ''/'') \<or> find_close t \<noteq> None"
  by (cases t) (auto split: if_splits)

lemma any_block_closes: "any_match ml_block t \<Longrightarrow> find_close t \<noteq> None"
proof (induction t)
  case Nil
  then show ?case by simp
next
  case (Cons c cs)
  from Cons.prems have "ml_block (c # cs) \<noteq> None \<or> any_match ml_block cs" by simp
  then show ?case
  proof
    assume "ml_block (c # cs) \<noteq> None"
    then have "cs \<noteq> []" "find_close (tl cs) \<noteq> None" using ml_block_Some[of c cs] by blast+
    then have "find_close cs \<noteq> None" using find_close_Cons[of "tl cs" "hd cs"] by simp
    then show ?thesis by (rule find_close_Cons)
  next
    assume "any_match ml_block cs"
    then have "find_close cs \<noteq> None" by (rule Cons.IH)
    then show ?thesis by (rule find_close_Cons)
  qed
qed

lemma scan_induct [consumes 0, case_names Nil Keep Skip]:
  assumes "P []"
    and "\<And>c cs. ml (c # cs) = None \<Longrightarrow> P cs \<Longrightarrow> P (c # cs)"
    and "\<And>c cs n. ml (c # cs) = Some n \<Longrightarrow> P (drop (n - 1) cs) \<Longrightarrow> P (c # cs)"
  shows "P t"
proof (induction "length t" arbitrary: t rule: less_induct)
  case less
  show ?case
  proof (cases t)
    case Nil
    with assms(1) show ?thesis by simp
  next
    case (Cons c cs)
    show ?thesis
    proof (cases "ml (c # cs)")
      case None
      have "P cs" by (rule less) (simp add: Cons)
      with None Cons assms(2) show ?thesis by simp
    next
      case (Some n)
      have "P (drop (n - 1) cs)" by (rule less) (simp add: Cons)
      with Some Cons assms(3) show ?thesis by simp
    qed
  qed
qed

section \<open>Line comments\<close>

lemma line_skip:
  "ml_line (c # cs) = Some n \<Longrightarrow> drop (n - 1) cs = dropWhile (\<lambda>x. x \<noteq> newline) (tl cs)"
  by (cases cs) (auto simp: dropWhile_eq_drop split: if_splits)

lemma newline_not_slash: "newline \<noteq> CHR ''/''"
  by (simp add: newline_def)

lemma scan_line_head:
  assumes "scan ml_line [] t \<noteq> []"
  shows "t \<noteq> [] \<and> (hd (scan ml_line [] t) = hd t \<or> hd (scan ml_line [] t) = newline)"
proof (cases t)
  case Nil
  with assms show ?thesis by simp
next
  case (Cons c cs)
  show ?thesis
  proof (cases "ml_line (c # cs)")
    case None
    with Cons show ?thesis by simp
  next
    case (Some n)
    let ?u = "dropWhile (\<lambda>x. x \<noteq> newline) (tl cs)"
    have s: "scan ml_line [] t = scan ml_line [] ?u"
      using Some Cons line_skip[OF Some] by simp
    have ne: "?u \<noteq> []"
    proof
      assume "?u = []"
      then have "scan ml_line [] ?u = []" by (simp only: scan.simps)
      with s assms show False by simp
    qed
    then obtain x u' where u: "?u = x # u'" by (cases ?u) auto
    from hd_dropWhile[OF ne] u have "x = newline" by simp
    with u have "scan ml_line [] ?u = newline # scan ml_line [] u'"
      using ml_line_Some[of newline u'] newline_not_slash by auto
    with s Cons show ?thesis by simp
  qed
qed

lemma scan_line_clean: "\<not> any_match ml_line (scan ml_line [] t)"
proof (induction t rule: scan_induct[where ml = ml_line])
  case Nil
  show ?case by simp
next
  case (Keep c cs)
  have "ml_line (c # scan ml_line [] cs) = None"
  proof (rule ccontr)
    assume "ml_line (c # scan ml_line [] cs) \<noteq> None"
    with ml_line_Some[of c "scan ml_line [] cs"]
    have a: "c = CHR ''/''" "scan ml_line [] cs \<noteq> []" "hd (scan ml_line [] cs) = CHR ''/''"
      by blast+
    from scan_line_head[OF a(2)] a(3) newline_not_slash have "cs \<noteq> []" "hd cs = CHR ''/''"
      by auto
    with a(1) ml_line_Some[of c cs] Keep(1) show False by simp
  qed
  with Keep show ?case by simp
next
  case (Skip c cs n)
  then show ?case by simp
qed

section \<open>Block comments\<close>

lemma scan_block_head:
  assumes "cs \<noteq> []"
  shows "(ml_block cs = None \<and> scan ml_block [] cs = hd cs # scan ml_block [] (tl cs))
         \<or> hd cs = CHR ''/''"
proof -
  from assms obtain x xs where cs: "cs = x # xs" by (cases cs) auto
  show ?thesis
  proof (cases "ml_block (x # xs)")
    case None
    with cs show ?thesis by simp
  next
    case (Some n)
    with ml_block_Some[of x xs] cs show ?thesis by simp
  qed
qed

lemma scan_block_clean:
  assumes "\<not> any_match ml_line t"
  shows "\<not> any_match ml_line (scan ml_block [] t) \<and> \<not> any_match ml_block (scan ml_block [] t)"
  using assms
proof (induction t rule: scan_induct[where ml = ml_block])
  case Nil
  show ?case by simp
next
  case (Keep c cs)
  let ?b = "scan ml_block [] cs"
  from Keep.prems have nl: "ml_line (c # cs) = None" and rest: "\<not> any_match ml_line cs" by simp_all
  from Keep.IH[OF rest] have IH: "\<not> any_match ml_line ?b" "\<not> any_match ml_block ?b" by simp_all
  have noss: "\<not> (c = CHR ''/'' \<and> cs \<noteq> [] \<and> hd cs = CHR ''/'')"
    using nl ml_line_Some[of c cs] by simp
  have 1: "ml_line (c # ?b) = None"
  proof (rule ccontr)
    assume "ml_line (c # ?b) \<noteq> None"
    with ml_line_Some[of c ?b] have a: "c = CHR ''/''" "?b \<noteq> []" "hd ?b = CHR ''/''" by blast+
    from a(2) have ne: "cs \<noteq> []" by auto
    from scan_block_head[OF ne] a(3) have "hd cs = CHR ''/''" by auto
    with a(1) ne noss show False by simp
  qed
  have 2: "ml_block (c # ?b) = None"
  proof (rule ccontr)
    assume "ml_block (c # ?b) \<noteq> None"
    with ml_block_Some[of c ?b] have a: "c = CHR ''/''" "?b \<noteq> []" "hd ?b = CHR ''*''"
      "find_close (tl ?b) \<noteq> None" by blast+
    from a(2) have ne: "cs \<noteq> []" by auto
    from scan_block_head[OF ne] show False
    proof
      assume h: "ml_block cs = None \<and> ?b = hd cs # scan ml_block [] (tl cs)"
      with a(3) have star: "hd cs = CHR ''*''" by simp
      from Keep.hyps ml_block_Some[of c cs] a(1) ne star have "find_close (tl cs) = None" by simp
      with any_block_closes[of "tl cs"] have "\<not> any_match ml_block (tl cs)" by blast
      then have "scan ml_block [] (tl cs) = tl cs" by (rule scan_no_match)
      with h have "tl ?b = tl cs" by simp
      with a(4) \<open>find_close (tl cs) = None\<close> show False by simp
    next
      assume "hd cs = CHR ''/''"
      with a(1) ne noss show False by simp
    qed
  qed
  from 1 2 IH Keep.hyps show ?case by simp
next
  case (Skip c cs n)
  from Skip.prems have "\<not> any_match ml_line cs" by simp
  then have "\<not> any_match ml_line (drop (n - 1) cs)" by (rule any_match_drop)
  from Skip.IH[OF this] Skip.hyps show ?case by simp
qed

section \<open>Trailing whitespace\<close>

lemma trail_rec:
  "scan ml_trail [] (c # cs)
     = (if list_all is_space (c # cs) then [] else c # scan ml_trail [] cs)"
  by (simp add: ml_trail_def)

lemma trail_nil: "(scan ml_trail [] t = []) = list_all is_space t"
proof (induction t)
  case Nil
  show ?case by simp
next
  case (Cons c cs)
  show ?case unfolding trail_rec by simp
qed

lemma trail_prefix: "\<exists>w. t = scan ml_trail [] t @ w"
proof (induction t)
  case Nil
  show ?case by simp
next
  case (Cons c cs)
  then obtain w where "cs = scan ml_trail [] cs @ w" by blast
  then show ?case unfolding trail_rec by (cases "list_all is_space (c # cs)") auto
qed

lemma trail_hd: "scan ml_trail [] t \<noteq> [] \<Longrightarrow> hd (scan ml_trail [] t) = hd t"
proof (cases t)
  case Nil
  assume "scan ml_trail [] t \<noteq> []"
  with Nil show ?thesis by simp
next
  case (Cons c cs)
  assume "scan ml_trail [] t \<noteq> []"
  with Cons show ?thesis unfolding Cons trail_rec by (auto split: if_splits)
qed

lemma trail_last: "scan ml_trail [] t \<noteq> [] \<Longrightarrow> \<not> is_space (last (scan ml_trail [] t))"
proof (induction t)
  case Nil
  then show ?case by simp
next
  case (Cons c cs)
  from Cons.prems have na: "\<not> list_all is_space (c # cs)" unfolding trail_rec by (simp split: if_splits)
  then have r: "scan ml_trail [] (c # cs) = c # scan ml_trail [] cs" unfolding trail_rec by simp
  show ?case
  proof (cases "scan ml_trail [] cs = []")
    case True
    then have "list_all is_space cs" by (simp add: trail_nil)
    with na have "\<not> is_space c" by simp
    with r True show ?thesis by simp
  next
    case False
    with Cons.IH r show ?thesis by simp
  qed
qed

lemma trail_id: "t = [] \<or> \<not> is_space (last t) \<Longrightarrow> scan ml_trail [] t = t"
proof (induction t)
  case Nil
  show ?case by simp
next
  case (Cons c cs)
  then have l: "\<not> is_space (last (c # cs))" by simp
  have "last (c # cs) \<in> set (c # cs)" by (rule last_in_set) simp
  with l have na: "\<not> list_all is_space (c # cs)" by (auto simp: list_all_iff)
  have "scan ml_trail [] cs = cs"
  proof (cases "cs = []")
    case True
    then show ?thesis by simp
  next
    case False
    with l have "\<not> is_space (last cs)" by simp
    with Cons.IH show ?thesis by simp
  qed
  with na show ?case unfolding trail_rec by simp
qed

lemma trail_line_clean:
  "\<not> any_match ml_line t \<Longrightarrow> \<not> any_match ml_line (scan ml_trail [] t)"
proof (induction t)
  case Nil
  show ?case by simp
next
  case (Cons c cs)
  let ?b = "scan ml_trail [] cs"
  from Cons.prems have nl: "ml_line (c # cs) = None" and rest: "\<not> any_match ml_line cs" by simp_all
  have "ml_line (c # ?b) = None"
  proof (rule ccontr)
    assume "ml_line (c # ?b) \<noteq> None"
    with ml_line_Some[of c ?b] have a: "c = CHR ''/''" "?b \<noteq> []" "hd ?b = CHR ''/''" by blast+
    from a(2) have "cs \<noteq> []" by auto
    moreover from trail_hd[OF a(2)] a(3) have "hd cs = CHR ''/''" by simp
    ultimately show False using nl a(1) ml_line_Some[of c cs] by simp
  qed
  with Cons.IH[OF rest] show ?case unfolding trail_rec by simp
qed

lemma trail_block_clean:
  "\<not> any_match ml_block t \<Longrightarrow> \<not> any_match ml_block (scan ml_trail [] t)"
proof (induction t)
  case Nil
  show ?case by simp
next
  case (Cons c cs)
  let ?b = "scan ml_trail [] cs"
  from Cons.prems have nl: "ml_block (c # cs) = None" and rest: "\<not> any_match ml_block cs" by simp_all
  have "ml_block (c # ?b) = None"
  proof (rule ccontr)
    assume "ml_block (c # ?b) \<noteq> None"
    with ml_block_Some[of c ?b] have a: "c = CHR ''/''" "?b \<noteq> []" "hd ?b = CHR ''*''"
      "find_close (tl ?b) \<noteq> None" by blast+
    from a(2) have ne: "cs \<noteq> []" by auto
    from trail_hd[OF a(2)] a(3) have h: "hd cs = CHR ''*''" by simp
    from trail_prefix[of cs] obtain w where w: "cs = ?b @ w" by blast
    with a(2) have "tl cs = tl ?b @ w" by (metis tl_append2)
    with find_close_append[OF a(4), of w] have "find_close (tl cs) \<noteq> None" by simp
    with ne h a(1) nl ml_block_Some[of c cs] show False by simp
  qed
  with Cons.IH[OF rest] show ?case unfolding trail_rec by simp
qed

section \<open>Runs of whitespace\<close>

lemma space_blank: "is_space CHR '' ''"
  by (simp add: is_space_def)

lemma star_not_space: "\<not> is_space CHR ''*''"
  by (simp add: is_space_def)

lemma collapse_rec:
  "scan ml_spaces '' '' (c # cs)
     = (if is_space c then CHR '' '' # scan ml_spaces '' '' (dropWhile is_space cs)
        else c # scan ml_spaces '' '' cs)"
  by (simp add: dropWhile_eq_drop)

lemma collapse_induct [consumes 0, case_names Nil Keep Run]:
  assumes "P []"
    and "\<And>c cs. \<not> is_space c \<Longrightarrow> P cs \<Longrightarrow> P (c # cs)"
    and "\<And>c cs. is_space c \<Longrightarrow> P (dropWhile is_space cs) \<Longrightarrow> P (c # cs)"
  shows "P t"
proof (induction t rule: scan_induct[where ml = ml_spaces])
  case Nil
  show ?case by (rule assms(1))
next
  case (Keep c cs)
  then show ?case using assms(2)[of c cs] by (simp split: if_splits)
next
  case (Skip c cs n)
  then have "is_space c" "drop (n - 1) cs = dropWhile is_space cs"
    by (auto simp: dropWhile_eq_drop split: if_splits)
  with Skip assms(3)[of c cs] show ?case by simp
qed

lemma collapse_hd:
  "t \<noteq> [] \<Longrightarrow> scan ml_spaces '' '' t \<noteq> []
     \<and> hd (scan ml_spaces '' '' t) = (if is_space (hd t) then CHR '' '' else hd t)"
  by (cases t) (simp_all add: collapse_rec del: scan.simps)

lemma collapse_line_clean:
  "\<not> any_match ml_line t \<Longrightarrow> \<not> any_match ml_line (scan ml_spaces '' '' t)"
proof (induction t rule: collapse_induct)
  case Nil
  show ?case by simp
next
  case (Keep c cs)
  let ?b = "scan ml_spaces '' '' cs"
  from Keep.prems have nl: "ml_line (c # cs) = None" and rest: "\<not> any_match ml_line cs" by simp_all
  have "ml_line (c # ?b) = None"
  proof (rule ccontr)
    assume "ml_line (c # ?b) \<noteq> None"
    with ml_line_Some[of c ?b] have a: "c = CHR ''/''" "?b \<noteq> []" "hd ?b = CHR ''/''" by blast+
    from a(2) have ne: "cs \<noteq> []" by auto
    from collapse_hd[OF ne] a(3) have "hd cs = CHR ''/''" by (auto split: if_splits)
    with ne nl a(1) ml_line_Some[of c cs] show False by simp
  qed
  moreover have "scan ml_spaces '' '' (c # cs) = c # ?b" using Keep.hyps by (simp only: collapse_rec if_False)
  ultimately show ?case using Keep.IH[OF rest] by simp
next
  case (Run c cs)
  let ?b = "scan ml_spaces '' '' (dropWhile is_space cs)"
  from Run.prems have "\<not> any_match ml_line cs" by simp
  then have "\<not> any_match ml_line (dropWhile is_space cs)" by (rule any_match_dropWhile)
  from Run.IH[OF this] have IH: "\<not> any_match ml_line ?b" .
  have "ml_line (CHR '' '' # ?b) = None" using ml_line_Some[of "CHR '' ''" ?b] by simp
  moreover have "scan ml_spaces '' '' (c # cs) = CHR '' '' # ?b"
    using Run.hyps by (simp only: collapse_rec if_True)
  ultimately show ?case using IH by simp
qed

lemma collapse_closes:
  "find_close (scan ml_spaces '' '' t) \<noteq> None \<Longrightarrow> find_close t \<noteq> None"
proof (induction t rule: collapse_induct)
  case Nil
  then show ?case by simp
next
  case (Keep c cs)
  let ?b = "scan ml_spaces '' '' cs"
  have r: "scan ml_spaces '' '' (c # cs) = c # ?b" using Keep.hyps by (simp only: collapse_rec if_False)
  with Keep.prems have "find_close (c # ?b) \<noteq> None" by simp
  from find_close_cases[OF this] show ?case
  proof
    assume a: "c = CHR ''*'' \<and> ?b \<noteq> [] \<and> hd ?b = CHR ''/''"
    then have ne: "cs \<noteq> []" by auto
    from collapse_hd[OF ne] a have "hd cs = CHR ''/''" by (auto split: if_splits)
    with ne a show ?thesis by (cases cs) auto
  next
    assume "find_close ?b \<noteq> None"
    from Keep.IH[OF this] show ?thesis by (rule find_close_Cons)
  qed
next
  case (Run c cs)
  let ?b = "scan ml_spaces '' '' (dropWhile is_space cs)"
  have r: "scan ml_spaces '' '' (c # cs) = CHR '' '' # ?b"
    using Run.hyps by (simp only: collapse_rec if_True)
  with Run.prems have "find_close (CHR '' '' # ?b) \<noteq> None" by simp
  from find_close_cases[OF this] have "find_close ?b \<noteq> None" by simp
  from Run.IH[OF this] have "find_close (drop (length (takeWhile is_space cs)) cs) \<noteq> None"
    by (simp add: dropWhile_eq_drop)
  then have "find_close cs \<noteq> None" by (rule find_close_drop)
  then show ?case by (rule find_close_Cons)
qed

lemma collapse_block_clean:
  "\<not> any_match ml_block t \<Longrightarrow> \<not> any_match ml_block (scan ml_spaces '' '' t)"
proof (induction t rule: collapse_induct)
  case Nil
  show ?case by simp
next
  case (Keep c cs)
  let ?b = "scan ml_spaces '' '' cs"
  from Keep.prems have nl: "ml_block (c # cs) = None" and rest: "\<not> any_match ml_block cs" by simp_all
  have "ml_block (c # ?b) = None"
  proof (rule ccontr)
    assume "ml_block (c # ?b) \<noteq> None"
    with ml_block_Some[of c ?b] have a: "c = CHR ''/''" "?b \<noteq> []" "hd ?b = CHR ''*''"
      "find_close (tl ?b) \<noteq> None" by blast+
    from a(2) have ne: "cs \<noteq> []" by auto
    from collapse_hd[OF ne] a(3) have h: "hd cs = CHR ''*''" by (auto split: if_splits)
    from ne h obtain r where cs: "cs = CHR ''*'' # r" by (cases cs) auto
    have "?b = CHR ''*'' # scan ml_spaces '' '' r"
      unfolding cs using star_not_space by (simp only: collapse_rec if_False)
    with a(4) have "find_close (scan ml_spaces '' '' r) \<noteq> None" by simp
    then have "find_close r \<noteq> None" by (rule collapse_closes)
    with cs a(1) nl show False by simp
  qed
  moreover have "scan ml_spaces '' '' (c # cs) = c # ?b" using Keep.hyps by (simp only: collapse_rec if_False)
  ultimately show ?case using Keep.IH[OF rest] by simp
next
  case (Run c cs)
  let ?b = "scan ml_spaces '' '' (dropWhile is_space cs)"
  from Run.prems have "\<not> any_match ml_block cs" by simp
  then have "\<not> any_match ml_block (dropWhile is_space cs)" by (rule any_match_dropWhile)
  from Run.IH[OF this] have IH: "\<not> any_match ml_block ?b" .
  have "ml_block (CHR '' '' # ?b) = None" using ml_block_Some[of "CHR '' ''" ?b] by simp
  moreover have "scan ml_spaces '' '' (c # cs) = CHR '' '' # ?b"
    using Run.hyps by (simp only: collapse_rec if_True)
  ultimately show ?case using IH by simp
qed

lemma collapse_last:
  "t \<noteq> [] \<Longrightarrow> \<not> is_space (last t) \<Longrightarrow> last (scan ml_spaces '' '' t) = last t"
proof (induction t rule: collapse_induct)
  case Nil
  then show ?case by simp
next
  case (Keep c cs)
  let ?b = "scan ml_spaces '' '' cs"
  have r: "scan ml_spaces '' '' (c # cs) = c # ?b" using Keep.hyps by (simp only: collapse_rec if_False)
  show ?case
  proof (cases "cs = []")
    case True
    with r show ?thesis by simp
  next
    case False
    with Keep.prems have "\<not> is_space (last cs)" by simp
    from Keep.IH[OF False this] have "last ?b = last cs" .
    moreover from collapse_hd[OF False] have "?b \<noteq> []" by simp
    ultimately show ?thesis using r False by simp
  qed
next
  case (Run c cs)
  let ?u = "dropWhile is_space cs"
  let ?b = "scan ml_spaces '' '' ?u"
  have r: "scan ml_spaces '' '' (c # cs) = CHR '' '' # ?b"
    using Run.hyps by (simp only: collapse_rec if_True)
  have ne: "cs \<noteq> []" using Run.hyps Run.prems(2) by auto
  with Run.prems(2) have l: "\<not> is_space (last cs)" by simp
  have "last cs \<in> set cs" using ne by (rule last_in_set)
  with l have u: "?u \<noteq> []" by (auto simp: dropWhile_eq_Nil_conv)
  have "cs = takeWhile is_space cs @ ?u" by simp
  then have "last cs = last ?u" using u by (metis last_appendR)
  moreover from Run.IH[OF u] l this have "last ?b = last ?u" by simp
  moreover from collapse_hd[OF u] have "?b \<noteq> []" by simp
  ultimately show ?case using r ne by simp
qed

lemma collapse_idem:
  "scan ml_spaces '' '' (scan ml_spaces '' '' t) = scan ml_spaces '' '' t"
proof (induction t rule: collapse_induct)
  case Nil
  show ?case by simp
next
  case (Keep c cs)
  let ?b = "scan ml_spaces '' '' cs"
  have r: "scan ml_spaces '' '' (c # cs) = c # ?b" using Keep.hyps by (simp only: collapse_rec if_False)
  have "scan ml_spaces '' '' (c # ?b) = c # scan ml_spaces '' '' ?b"
    using Keep.hyps by (simp only: collapse_rec if_False)
  with r Keep.IH show ?case by simp
next
  case (Run c cs)
  let ?u = "dropWhile is_space cs"
  let ?b = "scan ml_spaces '' '' ?u"
  have r: "scan ml_spaces '' '' (c # cs) = CHR '' '' # ?b"
    using Run.hyps by (simp only: collapse_rec if_True)
  have d: "dropWhile is_space ?b = ?b"
  proof (cases "?u = []")
    case True
    then have "?b = []" by (simp only: scan.simps)
    then show ?thesis by (simp only: dropWhile.simps)
  next
    case False
    from hd_dropWhile[OF False] have "\<not> is_space (hd ?u)" .
    with collapse_hd[OF False] have "?b \<noteq> []" "\<not> is_space (hd ?b)" by simp_all
    then show ?thesis by (cases ?b) simp_all
  qed
  have "scan ml_spaces '' '' (CHR '' '' # ?b)
        = CHR '' '' # scan ml_spaces '' '' (dropWhile is_space ?b)"
    using space_blank by (simp only: collapse_rec if_True)
  with r d Run.IH show ?case by simp
qed

section \<open>The lexical stripper is idempotent\<close>

text \<open>
  Claim C7. For every text, removing the comments and normalising the whitespace of a text
  that has already been through both passes changes nothing.
\<close>

theorem strip_idempotent:
  "remove_whitespace (remove_comments (remove_whitespace (remove_comments s)))
     = remove_whitespace (remove_comments s)"
proof -
  let ?V = "scan ml_line [] s"
  let ?U = "scan ml_block [] ?V"
  let ?L = "dropWhile is_space ?U"
  let ?X = "scan ml_trail [] ?L"
  let ?W = "scan ml_spaces '' '' ?X"
  have w: "remove_whitespace (remove_comments s) = ?W"
    by (simp add: remove_comments_scan remove_whitespace_scan)
  from scan_block_clean[OF scan_line_clean[of s]]
  have u: "\<not> any_match ml_line ?U" "\<not> any_match ml_block ?U" by simp_all
  have l: "\<not> any_match ml_line ?L" "\<not> any_match ml_block ?L"
    using u by (simp_all add: any_match_dropWhile)
  have x: "\<not> any_match ml_line ?X" "\<not> any_match ml_block ?X"
    using l by (simp_all add: trail_line_clean trail_block_clean)
  have cl: "\<not> any_match ml_line ?W" "\<not> any_match ml_block ?W"
    using x by (simp_all add: collapse_line_clean collapse_block_clean)
  have rc: "remove_comments ?W = ?W"
    unfolding remove_comments_scan using cl by (simp add: scan_no_match)
  have shape: "?W = [] \<or> (\<not> is_space (hd ?W) \<and> \<not> is_space (last ?W))"
  proof (cases "?X = []")
    case True
    then show ?thesis by simp
  next
    case False
    have "?L \<noteq> []"
    proof
      assume "?L = []"
      then have "?X = []" by (simp only: scan.simps)
      with False show False by simp
    qed
    from hd_dropWhile[OF this] trail_hd[OF False] have h: "\<not> is_space (hd ?X)" by simp
    from trail_last[OF False] have t: "\<not> is_space (last ?X)" .
    from collapse_hd[OF False] h have "\<not> is_space (hd ?W)" by simp
    moreover from collapse_last[OF False t] t have "\<not> is_space (last ?W)" by simp
    ultimately show ?thesis by simp
  qed
  have dw: "dropWhile is_space ?W = ?W" using shape by (cases ?W) auto
  have tr: "scan ml_trail [] ?W = ?W" using shape by (intro trail_id) blast
  have "remove_whitespace ?W = ?W"
    unfolding remove_whitespace_scan dw tr by (rule collapse_idem)
  with rc w show ?thesis by simp
qed

end
